theory Spec2Isabelle
  imports Main
begin

section \<open>The Sudoku engine of soduku.c\<close>

text \<open>
  The board is the C struct with its two arrays of \<open>DIM * DIM\<close> ints. The cell values and
  the coordinates are C ints; every product \<open>row * DIM + col\<close> the code forms stays below
  81 under its own assertions, so \<open>int\<close> models them without wrap-around. A failed
  \<open>assert\<close> aborts the process: it is the result \<open>Inl AssertionFailed\<close>. The assertions
  on pointers (\<open>assert(su)\<close>, \<open>assert(row)\<close>, ...) have no counterpart, since the model
  passes values. A function that mutates \<open>*su\<close> returns the board next to its result.
  The functions that read input, print and free memory (\<open>sudoku_read\<close>,
  \<open>solution_print\<close>, \<open>sudoku_destroy\<close>) and \<open>cell_hint\<close> are not part of the model.
\<close>

datatype error = AssertionFailed | OutOfFuel

record sudoku =
  puzzle :: "int list"
  solution :: "int list"

definition DIM :: int where
  "DIM = 9"

definition DIMBOX :: int where
  "DIMBOX = 3"

definition EMPTY :: int where
  "EMPTY = 0"

definition SUCCESS :: int where
  "SUCCESS = 0"

definition CONSTRAINT_VIOLATED :: int where
  "CONSTRAINT_VIOLATED = - 1"

text \<open>The array index \<open>row * DIM + col\<close> of the cell \<open>(row, col)\<close>.\<close>

definition idx :: "int \<Rightarrow> int \<Rightarrow> nat" where
  "idx row col = nat (row * DIM + col)"

text \<open>
  The struct fixes the length of both arrays; a board of the model is well formed when
  its lists have that length.
\<close>

definition wf_sudoku :: "sudoku \<Rightarrow> bool" where
  "wf_sudoku su \<longleftrightarrow>
     length (puzzle su) = nat (DIM * DIM) \<and> length (solution su) = nat (DIM * DIM)"

subsection \<open>Constraint checks\<close>

text \<open>\<open>for (int i = 0; i < DIM; ++i)\<close> of \<open>violate_row\<close>, over the remaining values of \<open>i\<close>.\<close>

fun violate_row_loop :: "sudoku \<Rightarrow> int \<Rightarrow> int \<Rightarrow> int list \<Rightarrow> int" where
  "violate_row_loop su row num [] = SUCCESS"
| "violate_row_loop su row num (i # rest) =
     (if solution su ! idx row i = num then CONSTRAINT_VIOLATED
      else violate_row_loop su row num rest)"

definition violate_row :: "sudoku \<Rightarrow> int \<Rightarrow> int \<Rightarrow> error + int" where
  "violate_row su row num =
     (if \<not> (0 \<le> row \<and> row \<le> 8) then Inl AssertionFailed
      else Inr (violate_row_loop su row num [0..DIM - 1]))"

fun violate_col_loop :: "sudoku \<Rightarrow> int \<Rightarrow> int \<Rightarrow> int list \<Rightarrow> int" where
  "violate_col_loop su col num [] = SUCCESS"
| "violate_col_loop su col num (i # rest) =
     (if solution su ! idx i col = num then CONSTRAINT_VIOLATED
      else violate_col_loop su col num rest)"

definition violate_col :: "sudoku \<Rightarrow> int \<Rightarrow> int \<Rightarrow> error + int" where
  "violate_col su col num =
     (if \<not> (0 \<le> col \<and> col \<le> 8) then Inl AssertionFailed
      else Inr (violate_col_loop su col num [0..DIM - 1]))"

text \<open>
  The two nested loops of \<open>violate_box\<close> visit the cells of the box row by row; the list
  holds the pairs \<open>(i, j)\<close> still to visit. The divisions \<open>row / DIMBOX\<close> and
  \<open>col / DIMBOX\<close> are taken after the assertions, on values that are not negative,
  where the truncating division of C is \<open>div\<close>.
\<close>

fun violate_box_loop :: "sudoku \<Rightarrow> int \<Rightarrow> (int \<times> int) list \<Rightarrow> int" where
  "violate_box_loop su num [] = SUCCESS"
| "violate_box_loop su num ((i, j) # rest) =
     (if solution su ! idx i j = num then CONSTRAINT_VIOLATED
      else violate_box_loop su num rest)"

definition violate_box :: "sudoku \<Rightarrow> int \<Rightarrow> int \<Rightarrow> int \<Rightarrow> error + int" where
  "violate_box su row col num =
     (if \<not> (0 \<le> row \<and> row \<le> 8) \<or> \<not> (0 \<le> col \<and> col \<le> 8) then Inl AssertionFailed
      else
        let row_box = row div DIMBOX;
            col_box = col div DIMBOX;
            row_pos = row_box * DIMBOX;
            col_pos = col_box * DIMBOX
        in Inr (violate_box_loop su num
                  (List.product [row_pos..(row_box + 1) * DIMBOX - 1]
                                [col_pos..(col_box + 1) * DIMBOX - 1])))"

text \<open>
  The condition \<open>violate_row(..) || violate_col(..) || violate_box(..)\<close> that \<open>cell_fill\<close>
  and \<open>cell_choices\<close> share: C evaluates it left to right and stops at the first
  non-zero result.
\<close>

definition violate_any :: "sudoku \<Rightarrow> int \<Rightarrow> int \<Rightarrow> int \<Rightarrow> error + bool" where
  "violate_any su row col num =
     (case violate_row su row num of
        Inl e \<Rightarrow> Inl e
      | Inr r \<Rightarrow>
          if r \<noteq> 0 then Inr True
          else (case violate_col su col num of
                  Inl e \<Rightarrow> Inl e
                | Inr c \<Rightarrow>
                    if c \<noteq> 0 then Inr True
                    else (case violate_box su row col num of
                            Inl e \<Rightarrow> Inl e
                          | Inr b \<Rightarrow> Inr (b \<noteq> 0))))"

subsection \<open>Grid operations\<close>

text \<open>All cells in the order of the nested loops \<open>for i .. for j ..\<close>: row-major.\<close>

definition cells :: "(int \<times> int) list" where
  "cells = List.product [0..DIM - 1] [0..DIM - 1]"

fun solution_reset_loop :: "sudoku \<Rightarrow> (int \<times> int) list \<Rightarrow> sudoku" where
  "solution_reset_loop su [] = su"
| "solution_reset_loop su ((row, col) # rest) =
     solution_reset_loop
       (su\<lparr>solution := (solution su)[idx row col := puzzle su ! idx row col]\<rparr>) rest"

definition solution_reset :: "sudoku \<Rightarrow> sudoku" where
  "solution_reset su = solution_reset_loop su cells"

definition cell_erase :: "sudoku \<Rightarrow> int \<Rightarrow> int \<Rightarrow> error + (bool \<times> sudoku)" where
  "cell_erase su row col =
     (if \<not> (0 \<le> row \<and> row \<le> DIM - 1) \<or> \<not> (0 \<le> col \<and> col \<le> DIM - 1)
      then Inl AssertionFailed
      else if puzzle su ! idx row col \<noteq> EMPTY then Inr (False, su)
      else Inr (True, su\<lparr>solution := (solution su)[idx row col := EMPTY]\<rparr>))"

definition cell_fill :: "sudoku \<Rightarrow> int \<Rightarrow> int \<Rightarrow> int \<Rightarrow> error + (bool \<times> sudoku)" where
  "cell_fill su row col num =
     (if \<not> (0 \<le> row \<and> row \<le> DIM - 1) \<or> \<not> (0 \<le> col \<and> col \<le> DIM - 1)
         \<or> \<not> (1 \<le> num \<and> num \<le> 9)
      then Inl AssertionFailed
      else if puzzle su ! idx row col \<noteq> EMPTY then Inr (False, su)
      else (case violate_any su row col num of
              Inl e \<Rightarrow> Inl e
            | Inr v \<Rightarrow>
                if v then Inr (False, su)
                else Inr (True, su\<lparr>solution := (solution su)[idx row col := num]\<rparr>)))"

fun puzzle_solved_loop :: "sudoku \<Rightarrow> (int \<times> int) list \<Rightarrow> bool" where
  "puzzle_solved_loop su [] = True"
| "puzzle_solved_loop su ((i, j) # rest) =
     (let check_num = solution su ! idx i j
      in if check_num = EMPTY then False else puzzle_solved_loop su rest)"

definition puzzle_solved :: "sudoku \<Rightarrow> bool" where
  "puzzle_solved su = puzzle_solved_loop su cells"

subsection \<open>Candidates\<close>

text \<open>
  \<open>cell_choices\<close> writes \<open>choices[0]\<close>, ..., \<open>choices[choice - 1]\<close> and returns \<open>choice\<close>.
  The model returns the count together with the entries written, in the order of their
  positions; the loop state is the pair of \<open>choice\<close> and those entries, so the store
  \<open>choices[choice] = i\<close> appends. The rest of the caller's array is not touched by the
  function and is never read by the callers in this file.
\<close>

fun cell_choices_loop ::
  "sudoku \<Rightarrow> int \<Rightarrow> int \<Rightarrow> int list \<Rightarrow> int \<times> int list \<Rightarrow> error + (int \<times> int list)" where
  "cell_choices_loop su row col [] (choice, choices) = Inr (choice, choices)"
| "cell_choices_loop su row col (i # rest) (choice, choices) =
     (case violate_any su row col i of
        Inl e \<Rightarrow> Inl e
      | Inr v \<Rightarrow>
          if v then cell_choices_loop su row col rest (choice, choices)
          else cell_choices_loop su row col rest (choice + 1, choices @ [i]))"

definition cell_choices :: "sudoku \<Rightarrow> int \<Rightarrow> int \<Rightarrow> error + (int \<times> int list)" where
  "cell_choices su row col =
     (if \<not> (0 \<le> row \<and> row \<le> DIM - 1) \<or> \<not> (0 \<le> col \<and> col \<le> DIM - 1)
      then Inl AssertionFailed
      else if puzzle su ! idx row col \<noteq> EMPTY then Inr (0, [])
      else cell_choices_loop su row col [1..9] (0, []))"

text \<open>The first pair of loops of \<open>least_possible_solutions\<close>: the running value of \<open>least\<close>.\<close>

fun least_first_pass :: "sudoku \<Rightarrow> (int \<times> int) list \<Rightarrow> int \<Rightarrow> error + int" where
  "least_first_pass su [] least = Inr least"
| "least_first_pass su ((i, j) # rest) least =
     (if solution su ! idx i j = EMPTY then
        (case cell_choices su i j of
           Inl e \<Rightarrow> Inl e
         | Inr (num_choices, choices) \<Rightarrow>
             if num_choices > 0 \<and> num_choices < least
             then least_first_pass su rest num_choices
             else least_first_pass su rest least)
      else least_first_pass su rest least)"

text \<open>
  The second pair of loops returns from inside; the result is the returned count, the
  values of \<open>*row\<close> and \<open>*col\<close> and the written entries of \<open>choices\<close>. On the fall-through
  \<open>return 0\<close> the two coordinates keep the values the caller passed in.
\<close>

fun least_second_pass ::
  "sudoku \<Rightarrow> (int \<times> int) list \<Rightarrow> int \<Rightarrow> int \<Rightarrow> int \<Rightarrow> error + (int \<times> int \<times> int \<times> int list)" where
  "least_second_pass su [] least row col = Inr (0, row, col, [])"
| "least_second_pass su ((i, j) # rest) least row col =
     (if solution su ! idx i j = EMPTY then
        (case cell_choices su i j of
           Inl e \<Rightarrow> Inl e
         | Inr (num_choices, choices) \<Rightarrow>
             if num_choices = least then Inr (num_choices, i, j, choices)
             else least_second_pass su rest least row col)
      else least_second_pass su rest least row col)"

definition least_possible_solutions ::
  "sudoku \<Rightarrow> int \<Rightarrow> int \<Rightarrow> error + (int \<times> int \<times> int \<times> int list)" where
  "least_possible_solutions su row col =
     (case least_first_pass su cells (DIM + 1) of
        Inl e \<Rightarrow> Inl e
      | Inr least \<Rightarrow> least_second_pass su cells least row col)"

subsection \<open>The backtracking solver\<close>

text \<open>
  The loop \<open>for (int i = 0; i < least_num; ++i)\<close> of \<open>sudoku_solve\<close> over the candidates
  still to try, followed by the erase. The recursive call is the parameter \<open>rec\<close>; the
  board it returns is the board the loop goes on with, as the C code mutates one struct.
\<close>

fun solve_loop ::
  "(sudoku \<Rightarrow> error + (bool \<times> sudoku)) \<Rightarrow> sudoku \<Rightarrow> int \<Rightarrow> int \<Rightarrow> int list
     \<Rightarrow> error + (bool \<times> sudoku)" where
  "solve_loop rec su row col [] =
     (case cell_erase su row col of
        Inl e \<Rightarrow> Inl e
      | Inr (erased, su') \<Rightarrow> Inr (False, su'))"
| "solve_loop rec su row col (curr_sol # rest) =
     (case cell_fill su row col curr_sol of
        Inl e \<Rightarrow> Inl e
      | Inr (filled, su1) \<Rightarrow>
          if \<not> filled then solve_loop rec su1 row col rest
          else (case rec su1 of
                  Inl e \<Rightarrow> Inl e
                | Inr (solved, su2) \<Rightarrow>
                    if solved then Inr (True, su2)
                    else solve_loop rec su2 row col rest))"

text \<open>
  The recursion of \<open>sudoku_solve\<close> is bounded by fuel: one unit for each nested call.
  Running out is the result \<open>Inl OutOfFuel\<close>, which no C run produces; that enough fuel
  always exists is a theorem below.
\<close>

primrec sudoku_solve :: "nat \<Rightarrow> sudoku \<Rightarrow> error + (bool \<times> sudoku)" where
  "sudoku_solve 0 su = Inl OutOfFuel"
| "sudoku_solve (Suc fuel) su =
     (if puzzle_solved su then Inr (True, su)
      else
        (case least_possible_solutions su 0 0 of
           Inl e \<Rightarrow> Inl e
         | Inr (least_num, row, col, choices) \<Rightarrow>
             if least_num = 0 then Inr (False, su)
             else solve_loop (sudoku_solve fuel) su row col (take (nat least_num) choices)))"

section \<open>Vocabulary of the specification\<close>

text \<open>
  The properties below speak of a digit occurring in a row, a column or a box of a grid,
  of the candidates of a cell and of the number of empty cells. These definitions say
  what that means on the array; none of them is used by the functions above.
\<close>

definition in_row :: "int list \<Rightarrow> int \<Rightarrow> int \<Rightarrow> bool" where
  "in_row s row d \<longleftrightarrow> (\<exists>c\<in>{0..8}. s ! idx row c = d)"

definition in_col :: "int list \<Rightarrow> int \<Rightarrow> int \<Rightarrow> bool" where
  "in_col s col d \<longleftrightarrow> (\<exists>r\<in>{0..8}. s ! idx r col = d)"

text \<open>The box of \<open>(row, col)\<close> holds the cells with the same quotients by 3.\<close>

definition in_box :: "int list \<Rightarrow> int \<Rightarrow> int \<Rightarrow> int \<Rightarrow> bool" where
  "in_box s row col d \<longleftrightarrow>
     (\<exists>(r, c)\<in>set cells. r div 3 = row div 3 \<and> c div 3 = col div 3 \<and> s ! idx r c = d)"

definition occurs :: "int list \<Rightarrow> int \<Rightarrow> int \<Rightarrow> int \<Rightarrow> bool" where
  "occurs s row col d \<longleftrightarrow> in_row s row d \<or> in_col s col d \<or> in_box s row col d"

text \<open>The digits 1 to 9, ascending, that occur in none of the three.\<close>

definition candidates :: "sudoku \<Rightarrow> int \<Rightarrow> int \<Rightarrow> int list" where
  "candidates su row col = filter (\<lambda>d. \<not> occurs (solution su) row col d) [1..9]"

text \<open>The board with \<open>solution[row * DIM + col]\<close> overwritten by \<open>v\<close>.\<close>

definition set_cell :: "sudoku \<Rightarrow> int \<Rightarrow> int \<Rightarrow> int \<Rightarrow> sudoku" where
  "set_cell su row col v = su\<lparr>solution := (solution su)[idx row col := v]\<rparr>"

text \<open>The empty cells of the solution in row-major order.\<close>

definition empty_cells :: "sudoku \<Rightarrow> (int \<times> int) list" where
  "empty_cells su = filter (\<lambda>(i, j). solution su ! idx i j = EMPTY) cells"

text \<open>
  The size of the candidate set of a cell and the set itself, as \<open>cell_choices\<close> reports
  them (0 and nothing for a clue cell).
\<close>

definition set_size :: "sudoku \<Rightarrow> int \<times> int \<Rightarrow> int" where
  "set_size su p = (case cell_choices su (fst p) (snd p) of Inl e \<Rightarrow> 0 | Inr (n, ch) \<Rightarrow> n)"

definition choices_at :: "sudoku \<Rightarrow> int \<times> int \<Rightarrow> int list" where
  "choices_at su p = (case cell_choices su (fst p) (snd p) of Inl e \<Rightarrow> [] | Inr (n, ch) \<Rightarrow> ch)"

text \<open>The empty cells that have at least one candidate.\<close>

definition live_cells :: "sudoku \<Rightarrow> (int \<times> int) list" where
  "live_cells su = filter (\<lambda>p. 0 < set_size su p) (empty_cells su)"

definition count_empty :: "sudoku \<Rightarrow> nat" where
  "count_empty su = length (filter (\<lambda>v. v = EMPTY) (solution su))"

section \<open>Valid and complete grids\<close>

text \<open>
  A cell is in order when its value is 0 or a digit and, if it is a digit, no other cell
  of its row, its column or its box holds the same value. A grid is valid when all its
  cells are; the empty cells of a valid grid can be anywhere.
\<close>

definition cell_ok :: "int list \<Rightarrow> int \<Rightarrow> int \<Rightarrow> bool" where
  "cell_ok s r c \<longleftrightarrow>
     0 \<le> s ! idx r c \<and> s ! idx r c \<le> 9 \<and>
     (s ! idx r c \<noteq> 0 \<longrightarrow>
        (\<forall>(i, j)\<in>set cells.
           (i, j) \<noteq> (r, c) \<and> (i = r \<or> j = c \<or> (i div 3 = r div 3 \<and> j div 3 = c div 3)) \<longrightarrow>
           s ! idx i j \<noteq> s ! idx r c))"

fun cells_ok :: "int list \<Rightarrow> (int \<times> int) list \<Rightarrow> bool" where
  "cells_ok s [] = True"
| "cells_ok s ((r, c) # rest) = (cell_ok s r c \<and> cells_ok s rest)"

definition valid_grid :: "int list \<Rightarrow> bool" where
  "valid_grid s = cells_ok s cells"

text \<open>
  The values of a row, of a column and of the box with box coordinates \<open>(br, bc)\<close>, and
  what it means that each of the digits 1 to 9 is there exactly once.
\<close>

definition row_values :: "int list \<Rightarrow> int \<Rightarrow> int list" where
  "row_values s r = map (\<lambda>c. s ! idx r c) [0..8]"

definition col_values :: "int list \<Rightarrow> int \<Rightarrow> int list" where
  "col_values s c = map (\<lambda>r. s ! idx r c) [0..8]"

definition box_values :: "int list \<Rightarrow> int \<Rightarrow> int \<Rightarrow> int list" where
  "box_values s br bc =
     map (\<lambda>(r, c). s ! idx r c) (List.product [3 * br..3 * br + 2] [3 * bc..3 * bc + 2])"

definition once_each :: "int list \<Rightarrow> bool" where
  "once_each vs \<longleftrightarrow> (\<forall>d\<in>{1..9}. count_list vs d = 1)"

definition complete_grid :: "int list \<Rightarrow> bool" where
  "complete_grid s \<longleftrightarrow>
     (\<forall>r\<in>{0..8}. once_each (row_values s r)) \<and>
     (\<forall>c\<in>{0..8}. once_each (col_values s c)) \<and>
     (\<forall>br\<in>{0..2}. \<forall>bc\<in>{0..2}. once_each (box_values s br bc))"

section \<open>Example boards\<close>

text \<open>A completed grid, and the board that has it as clues except for two blanks.\<close>

definition solved_grid :: "int list" where
  "solved_grid =
     [1, 2, 3, 4, 5, 6, 7, 8, 9,
      4, 5, 6, 7, 8, 9, 1, 2, 3,
      7, 8, 9, 1, 2, 3, 4, 5, 6,
      2, 3, 4, 5, 6, 7, 8, 9, 1,
      5, 6, 7, 8, 9, 1, 2, 3, 4,
      8, 9, 1, 2, 3, 4, 5, 6, 7,
      3, 4, 5, 6, 7, 8, 9, 1, 2,
      6, 7, 8, 9, 1, 2, 3, 4, 5,
      9, 1, 2, 3, 4, 5, 6, 7, 8]"

definition two_blanks :: sudoku where
  "two_blanks =
     \<lparr>puzzle = solved_grid[0 := 0, 40 := 0], solution = solved_grid[0 := 0, 40 := 0]\<rparr>"

text \<open>
  A board without completion: the three blanks of the first row have the candidates 1 and
  3 only (2 stands below each of them, 4 to 9 beside them).
\<close>

definition three_blanks :: sudoku where
  "three_blanks =
     \<lparr>puzzle = [0, 0, 0, 4, 5, 6, 7, 8, 9] @ replicate 72 2,
      solution = [0, 0, 0, 4, 5, 6, 7, 8, 9] @ replicate 72 2\<rparr>"


text \<open>The completed grid with the clue of the first cell replaced by a second 2.\<close>

definition duplicate_clue :: sudoku where
  "duplicate_clue = \<lparr>puzzle = solved_grid[0 := 2], solution = solved_grid[0 := 2]\<rparr>"

text \<open>
  A board with a dead end: the first cell is empty, its row holds 1 to 8 and the cell
  below it holds 9, so no digit is left for it. The other 71 cells are empty.
\<close>

definition dead_end_board :: sudoku where
  "dead_end_board =
     \<lparr>puzzle = [0, 1, 2, 3, 4, 5, 6, 7, 8, 9] @ replicate 71 0,
      solution = [0, 1, 2, 3, 4, 5, 6, 7, 8, 9] @ replicate 71 0\<rparr>"

section \<open>Sequences of calls\<close>

text \<open>
  A client of the header calls the mutating functions one after the other on one board.
  A call sequence stops at a failed assertion; the boolean results are dropped, the
  board is passed on. \<open>Solve\<close> runs \<open>sudoku_solve\<close> with the given fuel.
\<close>

datatype call = Reset | Erase int int | Fill int int int | Solve

fun run_call :: "nat \<Rightarrow> sudoku \<Rightarrow> call \<Rightarrow> error + sudoku" where
  "run_call fuel su Reset = Inr (solution_reset su)"
| "run_call fuel su (Erase row col) =
     (case cell_erase su row col of Inl e \<Rightarrow> Inl e | Inr (b, su') \<Rightarrow> Inr su')"
| "run_call fuel su (Fill row col num) =
     (case cell_fill su row col num of Inl e \<Rightarrow> Inl e | Inr (b, su') \<Rightarrow> Inr su')"
| "run_call fuel su Solve =
     (case sudoku_solve fuel su of Inl e \<Rightarrow> Inl e | Inr (b, su') \<Rightarrow> Inr su')"

fun run_calls :: "nat \<Rightarrow> sudoku \<Rightarrow> call list \<Rightarrow> error + sudoku" where
  "run_calls fuel su [] = Inr su"
| "run_calls fuel su (c # cs) =
     (case run_call fuel su c of Inl e \<Rightarrow> Inl e | Inr su' \<Rightarrow> run_calls fuel su' cs)"

text \<open>Every clue stands unchanged in the solution.\<close>

definition clues_kept :: "sudoku \<Rightarrow> bool" where
  "clues_kept su \<longleftrightarrow>
     (\<forall>i<nat (DIM * DIM). puzzle su ! i \<noteq> 0 \<longrightarrow> solution su ! i = puzzle su ! i)"

section \<open>Auxiliary facts\<close>

lemma idx_less: "0 \<le> row \<Longrightarrow> row \<le> 8 \<Longrightarrow> 0 \<le> col \<Longrightarrow> col \<le> 8 \<Longrightarrow> idx row col < 81"
  by (simp add: idx_def DIM_def)

lemma idx_inj:
  "0 \<le> r \<Longrightarrow> r \<le> 8 \<Longrightarrow> 0 \<le> c \<Longrightarrow> c \<le> 8 \<Longrightarrow> 0 \<le> r' \<Longrightarrow> r' \<le> 8 \<Longrightarrow> 0 \<le> c' \<Longrightarrow> c' \<le> 8
   \<Longrightarrow> idx r c = idx r' c' \<longleftrightarrow> r = r' \<and> c = c'"
proof -
  assume a: "0 \<le> r" "r \<le> 8" "0 \<le> c" "c \<le> 8" "0 \<le> r'" "r' \<le> 8" "0 \<le> c'" "c' \<le> 8"
  have "nat (r * 9 + c) = nat (r' * 9 + c') \<longleftrightarrow> r * 9 + c = r' * 9 + c'"
    using a by (simp add: nat_eq_iff)
  moreover have "(r * 9 + c) div 9 = r" "(r * 9 + c) mod 9 = c"
    "(r' * 9 + c') div 9 = r'" "(r' * 9 + c') mod 9 = c'"
    using a by simp_all
  ultimately show ?thesis by (metis idx_def DIM_def)
qed

lemma set_cells: "set cells = {0..8} \<times> {0..8}"
  by (simp add: cells_def DIM_def)

lemma violate_row_loop_iff:
  "violate_row_loop su row num is \<noteq> 0 \<longleftrightarrow> (\<exists>i\<in>set is. solution su ! idx row i = num)"
  by (induction "is") (simp_all add: SUCCESS_def CONSTRAINT_VIOLATED_def)

lemma violate_col_loop_iff:
  "violate_col_loop su col num is \<noteq> 0 \<longleftrightarrow> (\<exists>i\<in>set is. solution su ! idx i col = num)"
  by (induction "is") (simp_all add: SUCCESS_def CONSTRAINT_VIOLATED_def)

lemma violate_box_loop_iff:
  "violate_box_loop su num ps \<noteq> 0 \<longleftrightarrow> (\<exists>(i, j)\<in>set ps. solution su ! idx i j = num)"
  by (induction su num ps rule: violate_box_loop.induct)
    (simp_all add: SUCCESS_def CONSTRAINT_VIOLATED_def)

lemma box_range: "0 \<le> (row::int) \<Longrightarrow> row \<le> 8 \<Longrightarrow>
  (row div 3 * 3 \<le> r \<and> r \<le> (row div 3 + 1) * 3 - 1) \<longleftrightarrow> (0 \<le> r \<and> r \<le> 8 \<and> r div 3 = row div 3)"
  by presburger

lemma violate_any_eq:
  assumes "0 \<le> row" "row \<le> 8" "0 \<le> col" "col \<le> 8"
  shows "violate_any su row col num = Inr (occurs (solution su) row col num)"
proof -
  have r: "violate_row su row num = Inr (violate_row_loop su row num [0..8])"
    using assms by (simp add: violate_row_def DIM_def)
  have c: "violate_col su col num = Inr (violate_col_loop su col num [0..8])"
    using assms by (simp add: violate_col_def DIM_def)
  have b: "violate_box su row col num =
      Inr (violate_box_loop su num
             (List.product [row div 3 * 3..(row div 3 + 1) * 3 - 1]
                           [col div 3 * 3..(col div 3 + 1) * 3 - 1]))"
    using assms by (simp add: violate_box_def DIMBOX_def Let_def)
  have r': "violate_row_loop su row num [0..8] \<noteq> 0 \<longleftrightarrow> in_row (solution su) row num"
    by (simp add: violate_row_loop_iff in_row_def)
  have c': "violate_col_loop su col num [0..8] \<noteq> 0 \<longleftrightarrow> in_col (solution su) col num"
    by (simp add: violate_col_loop_iff in_col_def)
  have b': "violate_box_loop su num
             (List.product [row div 3 * 3..(row div 3 + 1) * 3 - 1]
                           [col div 3 * 3..(col div 3 + 1) * 3 - 1]) \<noteq> 0
            \<longleftrightarrow> in_box (solution su) row col num"
    unfolding violate_box_loop_iff in_box_def
    using box_range[OF assms(1,2)] box_range[OF assms(3,4)]
    by (auto simp add: Bex_def set_cells)
  show ?thesis
    using r' c' b' by (auto simp add: violate_any_def r c b occurs_def)
qed

lemma cell_fill_eq:
  assumes "0 \<le> row" "row \<le> 8" "0 \<le> col" "col \<le> 8" "1 \<le> num" "num \<le> 9"
  shows "cell_fill su row col num =
     Inr (if puzzle su ! idx row col \<noteq> 0 \<or> occurs (solution su) row col num then (False, su)
          else (True, set_cell su row col num))"
  using assms by (simp add: cell_fill_def DIM_def EMPTY_def violate_any_eq set_cell_def)

lemma cell_erase_eq:
  assumes "0 \<le> row" "row \<le> 8" "0 \<le> col" "col \<le> 8"
  shows "cell_erase su row col =
     Inr (if puzzle su ! idx row col \<noteq> 0 then (False, su) else (True, set_cell su row col 0))"
  using assms by (simp add: cell_erase_def DIM_def EMPTY_def set_cell_def)

lemma cell_choices_loop_eq:
  assumes "0 \<le> row" "row \<le> 8" "0 \<le> col" "col \<le> 8"
  shows "cell_choices_loop su row col ds (n, acc) =
     Inr (n + int (length (filter (\<lambda>d. \<not> occurs (solution su) row col d) ds)),
          acc @ filter (\<lambda>d. \<not> occurs (solution su) row col d) ds)"
  using assms by (induction ds arbitrary: n acc) (simp_all add: violate_any_eq)

lemma cell_choices_eq:
  assumes "0 \<le> row" "row \<le> 8" "0 \<le> col" "col \<le> 8"
  shows "cell_choices su row col =
     Inr (if puzzle su ! idx row col \<noteq> 0 then (0, [])
          else (int (length (candidates su row col)), candidates su row col))"
  using assms by (simp add: cell_choices_def DIM_def EMPTY_def cell_choices_loop_eq candidates_def)

lemma candidates_range: "d \<in> set (candidates su row col) \<Longrightarrow> 1 \<le> d \<and> d \<le> 9"
  by (simp add: candidates_def)

lemma candidates_sorted: "sorted_wrt (<) (candidates su row col)"
  unfolding candidates_def by (intro sorted_wrt_filter) (simp add: sorted_wrt_iff_nth_less)

lemma candidates_length: "length (candidates su row col) \<le> 9"
proof -
  have "length (candidates su row col) \<le> length [1..9::int]"
    unfolding candidates_def by (rule length_filter_le)
  then show ?thesis by simp
qed

lemma cells_range: "(i, j) \<in> set cells \<longleftrightarrow> 0 \<le> i \<and> i \<le> 8 \<and> 0 \<le> j \<and> j \<le> 8"
  by (simp add: set_cells)

lemma cell_choices_cells:
  "(i, j) \<in> set cells \<Longrightarrow> cell_choices su i j = Inr (set_size su (i, j), choices_at su (i, j))"
  by (simp add: cells_range cell_choices_eq set_size_def choices_at_def)

lemma set_size_bounds: "(i, j) \<in> set cells \<Longrightarrow> 0 \<le> set_size su (i, j) \<and> set_size su (i, j) \<le> 9"
  using candidates_length[of su i j]
  by (simp add: cells_range cell_choices_eq set_size_def)

lemma least_first_pass_eq:
  "set ps \<subseteq> set cells \<Longrightarrow>
   least_first_pass su ps l =
     Inr (Min (insert l (set_size su ` {p \<in> set ps. p \<in> set (empty_cells su) \<and> 0 < set_size su p})))"
proof (induction ps arbitrary: l)
  case Nil
  then show ?case by simp
next
  case (Cons p ps)
  obtain i j where p: "p = (i, j)" by (cases p)
  let ?S = "set_size su ` {q \<in> set ps. q \<in> set (empty_cells su) \<and> 0 < set_size su q}"
  have fin: "finite ?S" by simp
  have mem: "(i, j) \<in> set cells" and sub: "set ps \<subseteq> set cells"
    using Cons.prems by (simp_all add: p)
  have cc: "cell_choices su i j = Inr (set_size su (i, j), choices_at su (i, j))"
    using mem by (rule cell_choices_cells)
  have emp: "(i, j) \<in> set (empty_cells su) \<longleftrightarrow> solution su ! idx i j = EMPTY"
    using mem by (simp add: empty_cells_def)
  let ?n = "set_size su (i, j)"
  show ?case
  proof (cases "solution su ! idx i j = EMPTY \<and> 0 < ?n")
    case False
    then have "{q \<in> set (p # ps). q \<in> set (empty_cells su) \<and> 0 < set_size su q}
               = {q \<in> set ps. q \<in> set (empty_cells su) \<and> 0 < set_size su q}"
      using emp by (auto simp add: p)
    then show ?thesis
      using False Cons.IH[OF sub] by (auto simp add: p cc)
  next
    case True
    then have S: "set_size su ` {q \<in> set (p # ps). q \<in> set (empty_cells su) \<and> 0 < set_size su q}
               = insert ?n ?S"
      using emp by (auto simp add: p)
    have le: "Min (insert l ?S) \<le> l" "Min (insert ?n ?S) \<le> ?n"
      using fin by simp_all
    show ?thesis
    proof (cases "?n < l")
      case True
      have step: "least_first_pass su (p # ps) l = least_first_pass su ps ?n"
        using True \<open>solution su ! idx i j = EMPTY \<and> 0 < ?n\<close> by (simp add: p cc)
      have "Min (insert l (insert ?n ?S)) = min l (Min (insert ?n ?S))"
        using fin by simp
      also have "\<dots> = Min (insert ?n ?S)"
        by (rule min_absorb2) (use le True in linarith)
      finally have "Min (insert l (insert ?n ?S)) = Min (insert ?n ?S)" .
      then show ?thesis
        by (simp only: step S Cons.IH[OF sub])
    next
      case False
      have step: "least_first_pass su (p # ps) l = least_first_pass su ps l"
        using False \<open>solution su ! idx i j = EMPTY \<and> 0 < ?n\<close> by (simp add: p cc)
      have "Min (insert l (insert ?n ?S)) = Min (insert ?n (insert l ?S))"
        by (simp only: insert_commute)
      also have "\<dots> = min ?n (Min (insert l ?S))"
        using fin by simp
      also have "\<dots> = Min (insert l ?S)"
        by (rule min_absorb2) (use le False in linarith)
      finally have "Min (insert l (insert ?n ?S)) = Min (insert l ?S)" .
      then show ?thesis
        by (simp only: step S Cons.IH[OF sub])
    qed
  qed
qed

lemma least_second_pass_eq:
  "set ps \<subseteq> set cells \<Longrightarrow>
   least_second_pass su ps m row col =
     (case find (\<lambda>p. set_size su p = m) (filter (\<lambda>(i, j). solution su ! idx i j = EMPTY) ps) of
        None \<Rightarrow> Inr (0, row, col, [])
      | Some p \<Rightarrow> Inr (m, fst p, snd p, choices_at su p))"
proof (induction ps)
  case Nil
  then show ?case by simp
next
  case (Cons p ps)
  obtain i j where p: "p = (i, j)" by (cases p)
  have cc: "cell_choices su i j = Inr (set_size su (i, j), choices_at su (i, j))"
    using Cons.prems by (simp add: p cell_choices_cells)
  show ?case
    using Cons by (simp add: p cc)
qed

lemma puzzle_solved_loop_iff:
  "puzzle_solved_loop su ps \<longleftrightarrow> (\<forall>(i, j)\<in>set ps. solution su ! idx i j \<noteq> EMPTY)"
  by (induction su ps rule: puzzle_solved_loop.induct) (simp_all add: Let_def)

lemma puzzle_solved_iff:
  "puzzle_solved su \<longleftrightarrow> (\<forall>(i, j)\<in>set cells. solution su ! idx i j \<noteq> 0)"
  by (simp add: puzzle_solved_def puzzle_solved_loop_iff EMPTY_def)

lemma puzzle_solved_empty_cells: "puzzle_solved su \<longleftrightarrow> empty_cells su = []"
  by (auto simp add: puzzle_solved_iff empty_cells_def filter_empty_conv EMPTY_def)

lemma set_cell_simps:
  "puzzle (set_cell su row col v) = puzzle su"
  "solution (set_cell su row col v) = (solution su)[idx row col := v]"
  "set_cell (set_cell su row col v) row col w = set_cell su row col w"
  by (simp_all add: set_cell_def)

lemma set_cell_id: "solution su ! idx row col = v \<Longrightarrow> set_cell su row col v = su"
proof -
  assume "solution su ! idx row col = v"
  then have "(solution su)[idx row col := v] = solution su"
    by (metis list_update_id)
  then show ?thesis by (simp add: set_cell_def)
qed

lemma wf_set_cell: "wf_sudoku (set_cell su row col v) \<longleftrightarrow> wf_sudoku su"
  by (simp add: wf_sudoku_def set_cell_def)

lemma least_possible_solutions_cases:
  obtains (none) "least_possible_solutions su row col = Inr (0, row, col, [])"
  | (some) i j where "(i, j) \<in> set cells" "solution su ! idx i j = 0" "puzzle su ! idx i j = 0"
      "candidates su i j \<noteq> []"
      "least_possible_solutions su row col =
         Inr (int (length (candidates su i j)), i, j, candidates su i j)"
proof -
  let ?S = "set_size su ` {p \<in> set cells. p \<in> set (empty_cells su) \<and> 0 < set_size su p}"
  let ?m = "Min (insert (DIM + 1) ?S)"
  have first: "least_first_pass su cells (DIM + 1) = Inr ?m"
    by (simp add: least_first_pass_eq)
  have "?m \<in> insert (DIM + 1) ?S"
    by (rule Min_in) simp_all
  then have pos: "0 < ?m"
    by (auto simp add: DIM_def)
  show ?thesis
  proof (cases "find (\<lambda>p. set_size su p = ?m) (empty_cells su)")
    case None
    then have "least_possible_solutions su row col = Inr (0, row, col, [])"
      by (simp add: least_possible_solutions_def first least_second_pass_eq empty_cells_def)
    then show ?thesis by (rule none)
  next
    case (Some p)
    obtain i j where p: "p = (i, j)" by (cases p)
    have res: "least_possible_solutions su row col = Inr (?m, i, j, choices_at su (i, j))"
      using Some
      by (simp add: least_possible_solutions_def first least_second_pass_eq empty_cells_def p)
    from Some have "p \<in> set (empty_cells su)" and sz: "set_size su p = ?m"
      by (auto simp add: find_Some_iff)
    then have mem: "(i, j) \<in> set cells" and emp: "solution su ! idx i j = 0"
      by (auto simp add: empty_cells_def p EMPTY_def)
    have rng: "0 \<le> i" "i \<le> 8" "0 \<le> j" "j \<le> 8"
      using mem by (simp_all add: cells_range)
    have szpos: "0 < set_size su (i, j)"
      using sz pos by (simp only: p)
    have clue: "puzzle su ! idx i j = 0"
      using szpos rng by (auto simp add: set_size_def cell_choices_eq split: if_splits)
    have "set_size su (i, j) = int (length (candidates su i j))"
      and ch: "choices_at su (i, j) = candidates su i j"
      using clue rng by (simp_all add: set_size_def choices_at_def cell_choices_eq)
    then have m: "?m = int (length (candidates su i j))"
      using sz by (simp only: p)
    have ne: "candidates su i j \<noteq> []"
      using pos m by auto
    show ?thesis
      using mem emp clue ne res unfolding ch m by (rule some)
  qed
qed

lemma solve_loop_invariant:
  assumes rec: "\<And>s b s'. I s \<Longrightarrow> rec s = Inr (b, s') \<Longrightarrow>
                  I s' \<and> (b \<longrightarrow> puzzle_solved s') \<and> (\<not> b \<longrightarrow> s' = s)"
    and step: "\<And>c. c \<in> set cands \<Longrightarrow> I (set_cell base row col c)"
    and Ibase: "I base"
    and rng: "0 \<le> row" "row \<le> 8" "0 \<le> col" "col \<le> 8"
    and emp: "solution base ! idx row col = 0"
    and clue: "puzzle base ! idx row col = 0"
  shows "set cs \<subseteq> set cands \<Longrightarrow> v = 0 \<or> v \<in> set cands \<Longrightarrow>
         solve_loop rec (set_cell base row col v) row col cs = Inr (b, su') \<Longrightarrow>
         I su' \<and> (b \<longrightarrow> puzzle_solved su') \<and> (\<not> b \<longrightarrow> su' = base)"
proof (induction cs arbitrary: v)
  case Nil
  have "cell_erase (set_cell base row col v) row col = Inr (True, base)"
    using rng clue emp by (simp add: cell_erase_eq set_cell_simps set_cell_id)
  with Nil.prems Ibase show ?case by simp
next
  case (Cons c cs)
  let ?cur = "set_cell base row col v"
  have sub: "set cs \<subseteq> set cands" and c: "c \<in> set cands"
    using Cons.prems(1) by simp_all
  show ?case
  proof (cases "1 \<le> c \<and> c \<le> 9")
    case False
    then have "cell_fill ?cur row col c = Inl AssertionFailed"
      by (auto simp add: cell_fill_def)
    with Cons.prems(3) show ?thesis by simp
  next
    case True
    then have fill: "cell_fill ?cur row col c =
        Inr (if occurs (solution ?cur) row col c then (False, ?cur)
             else (True, set_cell base row col c))"
      using rng clue by (simp add: cell_fill_eq set_cell_simps)
    show ?thesis
    proof (cases "occurs (solution ?cur) row col c")
      case True
      then have "solve_loop rec ?cur row col cs = Inr (b, su')"
        using Cons.prems(3) fill by simp
      with Cons.IH[OF sub Cons.prems(2)] show ?thesis .
    next
      case False
      let ?nxt = "set_cell base row col c"
      have Inxt: "I ?nxt" using c by (rule step)
      show ?thesis
      proof (cases "rec ?nxt")
        case (Inl e)
        with Cons.prems(3) fill False show ?thesis by simp
      next
        case (Inr r)
        obtain b1 s2 where r: "r = (b1, s2)" by (cases r)
        note recr = rec[OF Inxt Inr[unfolded r]]
        show ?thesis
        proof (cases b1)
          case True
          with Cons.prems(3) fill False Inr r recr show ?thesis by simp
        next
          case b1: False
          with recr have s2: "s2 = ?nxt" by simp
          have "solve_loop rec ?nxt row col cs = Inr (b, su')"
            using Cons.prems(3) fill False Inr r b1 s2 by simp
          with Cons.IH[OF sub, of c] c show ?thesis by simp
        qed
      qed
    qed
  qed
qed

lemma sudoku_solve_invariant:
  assumes step: "\<And>s row col c. I s \<Longrightarrow> (row, col) \<in> set cells \<Longrightarrow>
                   solution s ! idx row col = 0 \<Longrightarrow> puzzle s ! idx row col = 0 \<Longrightarrow>
                   c \<in> set (candidates s row col) \<Longrightarrow> I (set_cell s row col c)"
  shows "I su \<Longrightarrow> sudoku_solve n su = Inr (b, su') \<Longrightarrow>
         I su' \<and> (b \<longrightarrow> puzzle_solved su') \<and> (\<not> b \<longrightarrow> su' = su)"
proof (induction n arbitrary: su b su')
  case 0
  then show ?case by simp
next
  case (Suc n)
  show ?case
  proof (cases "puzzle_solved su")
    case True
    with Suc.prems show ?thesis by auto
  next
    case unsolved: False
    show ?thesis
    proof (cases su "0::int" "0::int" rule: least_possible_solutions_cases)
      case none
      with Suc.prems unsolved show ?thesis by auto
    next
      case (some i j)
      have rng: "0 \<le> i" "i \<le> 8" "0 \<le> j" "j \<le> 8"
        using some(1) by (simp_all add: cells_range)
      have pos: "int (length (candidates su i j)) \<noteq> 0"
        using some(4) by simp
      have "solve_loop (sudoku_solve n) su i j (candidates su i j) = Inr (b, su')"
        using Suc.prems(2) unsolved some(5) pos by simp
      then have run: "solve_loop (sudoku_solve n) (set_cell su i j 0) i j (candidates su i j)
                        = Inr (b, su')"
        using some(2) by (simp add: set_cell_id)
      show ?thesis
      proof (rule solve_loop_invariant[where I = I and rec = "sudoku_solve n" and base = su
            and cands = "candidates su i j" and cs = "candidates su i j" and v = "0::int",
            OF _ _ Suc.prems(1) rng some(2) some(3) _ _ run])
        show "\<And>s b s'. I s \<Longrightarrow> sudoku_solve n s = Inr (b, s') \<Longrightarrow>
                I s' \<and> (b \<longrightarrow> puzzle_solved s') \<and> (\<not> b \<longrightarrow> s' = s)"
          by (rule Suc.IH)
        show "\<And>c. c \<in> set (candidates su i j) \<Longrightarrow> I (set_cell su i j c)"
          using Suc.prems(1) some(1,2,3) by (rule step)
      qed simp_all
    qed
  qed
qed

subsection \<open>Termination of the search\<close>

lemma filter_zero_update:
  "k < length xs \<Longrightarrow> xs ! k = (0::int) \<Longrightarrow> c \<noteq> 0 \<Longrightarrow>
   Suc (length (filter (\<lambda>v. v = 0) (xs[k := c]))) = length (filter (\<lambda>v. v = 0) xs)"
  by (induction xs arbitrary: k) (auto split: nat.splits)

lemma count_empty_set_cell:
  assumes "wf_sudoku su" "0 \<le> row" "row \<le> 8" "0 \<le> col" "col \<le> 8"
    and "solution su ! idx row col = 0" "c \<noteq> 0"
  shows "Suc (count_empty (set_cell su row col c)) = count_empty su"
proof -
  have "idx row col < length (solution su)"
    using assms idx_less[of row col] by (simp add: wf_sudoku_def DIM_def)
  then show ?thesis
    using assms by (simp add: count_empty_def set_cell_def EMPTY_def filter_zero_update)
qed

lemma sudoku_solve_restores: "sudoku_solve n su = Inr (False, su') \<Longrightarrow> su' = su"
  using sudoku_solve_invariant[where I = "\<lambda>s. True" and su = su and n = n and b = False
      and su' = su']
  by simp

lemma solve_loop_total:
  assumes total: "\<And>s. wf_sudoku s \<Longrightarrow> count_empty s < N \<Longrightarrow> \<exists>b s'. rec s = Inr (b, s')"
    and restore: "\<And>s s'. rec s = Inr (False, s') \<Longrightarrow> s' = s"
    and wf: "wf_sudoku base"
    and rng: "0 \<le> row" "row \<le> 8" "0 \<le> col" "col \<le> 8"
    and emp: "solution base ! idx row col = 0"
    and clue: "puzzle base ! idx row col = 0"
    and cnt: "count_empty base \<le> N"
  shows "\<forall>c\<in>set cs. 1 \<le> c \<and> c \<le> 9 \<Longrightarrow>
         \<exists>b su'. solve_loop rec (set_cell base row col v) row col cs = Inr (b, su')"
proof (induction cs arbitrary: v)
  case Nil
  show ?case
    using rng by (auto simp add: cell_erase_eq)
next
  case (Cons c cs)
  let ?cur = "set_cell base row col v"
  let ?nxt = "set_cell base row col c"
  have c: "1 \<le> c" "c \<le> 9" and rest: "\<forall>c\<in>set cs. 1 \<le> c \<and> c \<le> 9"
    using Cons.prems by simp_all
  have fill: "cell_fill ?cur row col c =
      Inr (if occurs (solution ?cur) row col c then (False, ?cur) else (True, ?nxt))"
    using rng clue c by (simp add: cell_fill_eq set_cell_simps)
  show ?case
  proof (cases "occurs (solution ?cur) row col c")
    case True
    with fill Cons.IH[OF rest, of v] show ?thesis by auto
  next
    case False
    have "Suc (count_empty ?nxt) = count_empty base"
      using wf rng emp c by (intro count_empty_set_cell) simp_all
    then have "count_empty ?nxt < N"
      using cnt by simp
    then obtain b1 s2 where r: "rec ?nxt = Inr (b1, s2)"
      using total[of ?nxt] wf by (auto simp add: wf_set_cell)
    show ?thesis
    proof (cases b1)
      case True
      with fill False r show ?thesis by auto
    next
      case b1: False
      with r restore have "s2 = ?nxt" by simp
      with fill False r b1 Cons.IH[OF rest, of c] show ?thesis by auto
    qed
  qed
qed

lemma sudoku_solve_total:
  "wf_sudoku su \<Longrightarrow> count_empty su < n \<Longrightarrow> \<exists>b su'. sudoku_solve n su = Inr (b, su')"
proof (induction n arbitrary: su)
  case 0
  then show ?case by simp
next
  case (Suc n)
  show ?case
  proof (cases "puzzle_solved su")
    case True
    then show ?thesis by auto
  next
    case unsolved: False
    show ?thesis
    proof (cases su "0::int" "0::int" rule: least_possible_solutions_cases)
      case none
      with unsolved show ?thesis by auto
    next
      case (some i j)
      have rng: "0 \<le> i" "i \<le> 8" "0 \<le> j" "j \<le> 8"
        using some(1) by (simp_all add: cells_range)
      have cands: "\<forall>c\<in>set (candidates su i j). 1 \<le> c \<and> c \<le> 9"
        using candidates_range by blast
      have "\<exists>b su'. solve_loop (sudoku_solve n) (set_cell su i j 0) i j (candidates su i j)
              = Inr (b, su')"
      proof (rule solve_loop_total[where N = n, OF _ _ Suc.prems(1) rng some(2,3) _ cands])
        show "\<And>s. wf_sudoku s \<Longrightarrow> count_empty s < n \<Longrightarrow> \<exists>b s'. sudoku_solve n s = Inr (b, s')"
          by (rule Suc.IH)
        show "\<And>s s'. sudoku_solve n s = Inr (False, s') \<Longrightarrow> s' = s"
          by (rule sudoku_solve_restores)
        show "count_empty su \<le> n"
          using Suc.prems(2) by simp
      qed
      then show ?thesis
        using unsolved some(2,4,5) by (simp add: set_cell_id)
    qed
  qed
qed




subsection \<open>Valid grids\<close>

lemma cells_ok_iff: "cells_ok s ps \<longleftrightarrow> (\<forall>(r, c)\<in>set ps. cell_ok s r c)"
  by (induction s ps rule: cells_ok.induct) simp_all

lemma valid_grid_iff: "valid_grid s \<longleftrightarrow> (\<forall>(r, c)\<in>set cells. cell_ok s r c)"
  by (simp add: valid_grid_def cells_ok_iff)

lemma occurs_iff:
  assumes "(row, col) \<in> set cells"
  shows "occurs s row col d \<longleftrightarrow>
     (\<exists>(i, j)\<in>set cells.
        (i = row \<or> j = col \<or> (i div 3 = row div 3 \<and> j div 3 = col div 3)) \<and> s ! idx i j = d)"
    (is "_ \<longleftrightarrow> ?R")
proof
  assume "occurs s row col d"
  then consider (row) c where "c \<in> {0..8}" "s ! idx row c = d"
    | (col) r where "r \<in> {0..8}" "s ! idx r col = d"
    | (box) i j where "(i, j) \<in> set cells" "i div 3 = row div 3" "j div 3 = col div 3"
        "s ! idx i j = d"
    by (auto simp add: occurs_def in_row_def in_col_def in_box_def)
  then show ?R
  proof cases
    case row
    then have "(row, c) \<in> set cells"
      using assms by (simp add: cells_range)
    then show ?thesis
      using row by (intro bexI[of _ "(row, c)"]) simp_all
  next
    case col
    then have "(r, col) \<in> set cells"
      using assms by (simp add: cells_range)
    then show ?thesis
      using col by (intro bexI[of _ "(r, col)"]) simp_all
  next
    case box
    then show ?thesis
      by (intro bexI[of _ "(i, j)"]) simp_all
  qed
next
  assume ?R
  then obtain i j where ij: "(i, j) \<in> set cells"
    "i = row \<or> j = col \<or> (i div 3 = row div 3 \<and> j div 3 = col div 3)" "s ! idx i j = d"
    by auto
  from ij(2) show "occurs s row col d"
  proof (elim disjE)
    assume "i = row"
    then have "in_row s row d"
      using ij by (auto simp add: in_row_def cells_range)
    then show ?thesis by (simp add: occurs_def)
  next
    assume "j = col"
    then have "in_col s col d"
      using ij by (auto simp add: in_col_def cells_range)
    then show ?thesis by (simp add: occurs_def)
  next
    assume "i div 3 = row div 3 \<and> j div 3 = col div 3"
    then have "in_box s row col d"
      using ij unfolding in_box_def by (intro bexI[of _ "(i, j)"]) simp_all
    then show ?thesis by (simp add: occurs_def)
  qed
qed

lemma valid_grid_update:
  assumes valid: "valid_grid s"
    and cell: "(row, col) \<in> set cells"
    and len: "idx row col < length s"
    and d: "1 \<le> d" "d \<le> 9"
    and free: "\<not> occurs s row col d"
  shows "valid_grid (s[idx row col := d])"
  unfolding valid_grid_iff
proof (intro ballI, clarify)
  fix r c
  assume rc: "(r, c) \<in> set cells"
  let ?s' = "s[idx row col := d]"
  have other: "?s' ! idx i j = s ! idx i j" if "(i, j) \<in> set cells" "(i, j) \<noteq> (row, col)" for i j
  proof -
    have "idx i j \<noteq> idx row col"
      using that cell idx_inj[of i j row col] by (auto simp add: cells_range)
    then show ?thesis by simp
  qed
  have here: "?s' ! idx row col = d"
    using len by simp
  have nowhere: "\<And>i j. (i, j) \<in> set cells \<Longrightarrow>
      i = row \<or> j = col \<or> (i div 3 = row div 3 \<and> j div 3 = col div 3) \<Longrightarrow> s ! idx i j \<noteq> d"
    using free cell by (auto simp add: occurs_iff)
  have old: "cell_ok s r c"
    using valid rc by (auto simp add: valid_grid_iff)
  show "cell_ok ?s' r c"
  proof (cases "(r, c) = (row, col)")
    case True
    then show ?thesis
      using d here other nowhere by (auto simp add: cell_ok_def)
  next
    case False
    have same: "?s' ! idx r c = s ! idx r c"
      using rc False by (rule other)
    have "?s' ! idx i j \<noteq> s ! idx r c"
      if ij: "(i, j) \<in> set cells" "(i, j) \<noteq> (r, c)"
        "i = r \<or> j = c \<or> (i div 3 = r div 3 \<and> j div 3 = c div 3)"
        and nz: "s ! idx r c \<noteq> 0" for i j
    proof (cases "(i, j) = (row, col)")
      case True
      have "s ! idx r c \<noteq> d"
        using nowhere[OF rc] ij(3) True by auto
      then show ?thesis
        using True here by auto
    next
      case False
      then have "?s' ! idx i j = s ! idx i j"
        using ij(1) other by blast
      moreover have "s ! idx i j \<noteq> s ! idx r c"
        using old nz ij by (auto simp add: cell_ok_def)
      ultimately show ?thesis by simp
    qed
    then show ?thesis
      using old by (auto simp add: cell_ok_def same)
  qed
qed

lemma count_list_map_once:
  "distinct xs \<Longrightarrow> inj_on f (set xs) \<Longrightarrow> d \<in> f ` set xs \<Longrightarrow> count_list (map f xs) d = 1"
proof (induction xs)
  case Nil
  then show ?case by simp
next
  case (Cons x xs)
  show ?case
  proof (cases "f x = d")
    case True
    have "d \<notin> f ` set xs"
      using Cons.prems(1,2) True by (auto simp add: inj_on_def)
    then have "count_list (map f xs) d = 0"
      by (simp add: count_list_0_iff)
    with True show ?thesis by simp
  next
    case False
    then have "d \<in> f ` set xs"
      using Cons.prems(3) by auto
    with Cons False show ?thesis by simp
  qed
qed

lemma once_each_map:
  assumes "distinct xs" "length xs = 9" "inj_on f (set xs)" "f ` set xs \<subseteq> {1..9::int}"
  shows "once_each (map f xs)"
proof -
  have "card (f ` set xs) = 9"
    using assms(1,2,3) by (simp add: card_image distinct_card)
  then have "f ` set xs = {1..9}"
    using assms(4) by (intro card_subset_eq) simp_all
  then show ?thesis
    using assms(1,3) by (simp add: once_each_def count_list_map_once)
qed

lemma complete_gridI:
  assumes valid: "valid_grid s" and full: "\<forall>(r, c)\<in>set cells. s ! idx r c \<noteq> 0"
  shows "complete_grid s"
proof -
  have ok: "cell_ok s r c" if "(r, c) \<in> set cells" for r c
    using valid that by (auto simp add: valid_grid_iff)
  have digit: "s ! idx r c \<in> {1..9}" if "(r, c) \<in> set cells" for r c
    using ok[OF that] full that by (auto simp add: cell_ok_def)
  have differ: "s ! idx i j \<noteq> s ! idx r c"
    if "(r, c) \<in> set cells" "(i, j) \<in> set cells" "(i, j) \<noteq> (r, c)"
      "i = r \<or> j = c \<or> (i div 3 = r div 3 \<and> j div 3 = c div 3)" for r c i j
  proof -
    have "s ! idx r c \<noteq> 0"
      using full that(1) by auto
    then have "\<forall>(i, j)\<in>set cells.
        (i, j) \<noteq> (r, c) \<and> (i = r \<or> j = c \<or> (i div 3 = r div 3 \<and> j div 3 = c div 3)) \<longrightarrow>
        s ! idx i j \<noteq> s ! idx r c"
      using ok[OF that(1)] by (simp add: cell_ok_def)
    from bspec[OF this that(2)] that(3,4) show ?thesis
      by simp
  qed
  have rows: "once_each (row_values s r)" if r: "r \<in> {0..8}" for r
    unfolding row_values_def
  proof (rule once_each_map)
    show "inj_on (\<lambda>c. s ! idx r c) (set [0..8])"
    proof (rule inj_onI)
      fix c c'
      assume "c \<in> set [0..8]" "c' \<in> set [0..8]" "s ! idx r c = s ! idx r c'"
      then show "c = c'"
        using differ[of r c' r c] r by (auto simp add: cells_range)
    qed
    show "(\<lambda>c. s ! idx r c) ` set [0..8] \<subseteq> {1..9}"
      using digit r by (auto simp add: cells_range)
  qed simp_all
  have cols: "once_each (col_values s c)" if c: "c \<in> {0..8}" for c
    unfolding col_values_def
  proof (rule once_each_map)
    show "inj_on (\<lambda>r. s ! idx r c) (set [0..8])"
    proof (rule inj_onI)
      fix r r'
      assume "r \<in> set [0..8]" "r' \<in> set [0..8]" "s ! idx r c = s ! idx r' c"
      then show "r = r'"
        using differ[of r' c r c] c by (auto simp add: cells_range)
    qed
    show "(\<lambda>r. s ! idx r c) ` set [0..8] \<subseteq> {1..9}"
      using digit c by (auto simp add: cells_range)
  qed simp_all
  have boxes: "once_each (box_values s br bc)" if b: "br \<in> {0..2}" "bc \<in> {0..2}" for br bc
    unfolding box_values_def
  proof (rule once_each_map)
    let ?ps = "List.product [3 * br..3 * br + 2] [3 * bc..3 * bc + 2]"
    have mem: "(r, c) \<in> set cells \<and> r div 3 = br \<and> c div 3 = bc" if "(r, c) \<in> set ?ps" for r c
      using that b by (auto simp add: cells_range)
    show "distinct ?ps"
      by (simp add: distinct_product)
    show "length ?ps = 9"
      by simp
    show "inj_on (\<lambda>(r, c). s ! idx r c) (set ?ps)"
    proof (rule inj_onI, clarify)
      fix r c r' c'
      assume p: "(r, c) \<in> set ?ps" and q: "(r', c') \<in> set ?ps"
        and eq: "s ! idx r c = s ! idx r' c'"
      show "r = r' \<and> c = c'"
        using differ[of r' c' r c] mem[OF p] mem[OF q] eq by auto
    qed
    show "(\<lambda>(r, c). s ! idx r c) ` set ?ps \<subseteq> {1..9}"
      using digit mem by fastforce
  qed
  show ?thesis
    using rows cols boxes by (simp add: complete_grid_def)
qed

lemma sudoku_solve_valid:
  assumes "wf_sudoku su" "valid_grid (solution su)" "sudoku_solve n su = Inr (b, su')"
  shows "wf_sudoku su' \<and> valid_grid (solution su') \<and> (b \<longrightarrow> puzzle_solved su')"
proof -
  have "(wf_sudoku su' \<and> valid_grid (solution su')) \<and> (b \<longrightarrow> puzzle_solved su')
        \<and> (\<not> b \<longrightarrow> su' = su)"
  proof (rule sudoku_solve_invariant[where I = "\<lambda>s. wf_sudoku s \<and> valid_grid (solution s)"
        and su = su and n = n])
    show "wf_sudoku su \<and> valid_grid (solution su)"
      using assms by simp
    show "sudoku_solve n su = Inr (b, su')"
      by (rule assms(3))
  next
    fix s row col c
    assume I: "wf_sudoku s \<and> valid_grid (solution s)" and cell: "(row, col) \<in> set cells"
      and c: "c \<in> set (candidates s row col)"
    have len: "idx row col < length (solution s)"
      using I cell idx_less[of row col] by (simp add: cells_range wf_sudoku_def DIM_def)
    have "1 \<le> c" "c \<le> 9" "\<not> occurs (solution s) row col c"
      using c by (simp_all add: candidates_def)
    then have "valid_grid ((solution s)[idx row col := c])"
      using I cell len by (intro valid_grid_update) simp_all
    then show "wf_sudoku (set_cell s row col c) \<and> valid_grid (solution (set_cell s row col c))"
      using I by (simp add: wf_set_cell set_cell_simps)
  qed
  then show ?thesis by simp
qed

subsection \<open>Clues under the mutating calls\<close>

lemma idx_div_mod:
  assumes "k < 81"
  shows "(int k div 9, int k mod 9) \<in> set cells" "idx (int k div 9) (int k mod 9) = k"
proof -
  have "0 \<le> int k div 9" "int k div 9 \<le> 8" "0 \<le> int k mod 9" "int k mod 9 \<le> 8"
    using assms by simp_all
  then show "(int k div 9, int k mod 9) \<in> set cells"
    by (simp add: cells_range)
  show "idx (int k div 9) (int k mod 9) = k"
    by (simp add: idx_def DIM_def)
qed

lemma solution_reset_loop_puzzle: "puzzle (solution_reset_loop su ps) = puzzle su"
  by (induction su ps rule: solution_reset_loop.induct) simp_all

lemma solution_reset_loop_more: "sudoku.more (solution_reset_loop su ps) = sudoku.more su"
  by (induction su ps rule: solution_reset_loop.induct) simp_all

lemma solution_reset_loop_length:
  "length (solution (solution_reset_loop su ps)) = length (solution su)"
  by (induction su ps rule: solution_reset_loop.induct) simp_all

lemma solution_reset_loop_nth:
  "k < length (solution su) \<Longrightarrow>
   solution (solution_reset_loop su ps) ! k =
     (if k \<in> (\<lambda>(row, col). idx row col) ` set ps then puzzle su ! k else solution su ! k)"
proof (induction su ps rule: solution_reset_loop.induct)
  case (1 su)
  then show ?case by simp
next
  case (2 su row col rest)
  let ?su1 = "su\<lparr>solution := (solution su)[idx row col := puzzle su ! idx row col]\<rparr>"
  have "solution (solution_reset_loop ?su1 rest) ! k =
     (if k \<in> (\<lambda>(row, col). idx row col) ` set rest then puzzle ?su1 ! k else solution ?su1 ! k)"
    using 2 by simp
  then show ?case
    using "2.prems" by (auto simp add: nth_list_update)
qed

lemma solution_reset_solution:
  assumes "wf_sudoku su"
  shows "solution (solution_reset su) = puzzle su"
proof (rule nth_equalityI)
  show "length (solution (solution_reset su)) = length (puzzle su)"
    using assms by (simp add: solution_reset_def solution_reset_loop_length wf_sudoku_def)
next
  fix k
  assume "k < length (solution (solution_reset su))"
  then have k: "k < 81" "k < length (solution su)"
    using assms by (simp_all add: solution_reset_def solution_reset_loop_length wf_sudoku_def DIM_def)
  have "k \<in> (\<lambda>(row, col). idx row col) ` set cells"
    using idx_div_mod[OF k(1)] by (metis (mono_tags, lifting) image_eqI old.prod.case)
  then show "solution (solution_reset su) ! k = puzzle su ! k"
    using k(2) by (simp add: solution_reset_def solution_reset_loop_nth)
qed

lemma solution_reset_eq: "wf_sudoku su \<Longrightarrow> solution_reset su = su\<lparr>solution := puzzle su\<rparr>"
  by (rule sudoku.equality)
    (simp_all add: solution_reset_solution,
      simp_all add: solution_reset_def solution_reset_loop_puzzle solution_reset_loop_more)

lemma clues_kept_set_cell:
  "clues_kept su \<Longrightarrow> puzzle su ! idx row col = 0 \<Longrightarrow> clues_kept (set_cell su row col v)"
  unfolding clues_kept_def
proof (intro allI impI)
  fix i
  assume kept: "\<forall>i<nat (DIM * DIM). puzzle su ! i \<noteq> 0 \<longrightarrow> solution su ! i = puzzle su ! i"
    and blank: "puzzle su ! idx row col = 0"
    and i: "i < nat (DIM * DIM)" "puzzle (set_cell su row col v) ! i \<noteq> 0"
  then have "i \<noteq> idx row col"
    by (auto simp add: set_cell_def)
  then show "solution (set_cell su row col v) ! i = puzzle (set_cell su row col v) ! i"
    using kept i by (simp add: set_cell_def)
qed

lemma sudoku_solve_clues:
  assumes "wf_sudoku su" "clues_kept su" "sudoku_solve n su = Inr (b, su')"
  shows "wf_sudoku su' \<and> puzzle su' = puzzle su \<and> clues_kept su'"
proof -
  have "(wf_sudoku su' \<and> puzzle su' = puzzle su \<and> clues_kept su') \<and> (b \<longrightarrow> puzzle_solved su')
        \<and> (\<not> b \<longrightarrow> su' = su)"
  proof (rule sudoku_solve_invariant[where
        I = "\<lambda>s. wf_sudoku s \<and> puzzle s = puzzle su \<and> clues_kept s" and su = su and n = n])
    show "wf_sudoku su \<and> puzzle su = puzzle su \<and> clues_kept su"
      using assms by simp
    show "sudoku_solve n su = Inr (b, su')"
      by (rule assms(3))
  next
    fix s row col c
    assume "wf_sudoku s \<and> puzzle s = puzzle su \<and> clues_kept s" "puzzle s ! idx row col = 0"
    then show "wf_sudoku (set_cell s row col c) \<and> puzzle (set_cell s row col c) = puzzle su
               \<and> clues_kept (set_cell s row col c)"
      by (simp add: wf_set_cell set_cell_simps clues_kept_set_cell)
  qed
  then show ?thesis by simp
qed

lemma run_call_clues:
  assumes "wf_sudoku su" "clues_kept su" "run_call fuel su c = Inr su'"
  shows "wf_sudoku su' \<and> puzzle su' = puzzle su \<and> clues_kept su'"
proof (cases c)
  case Reset
  then have "su' = su\<lparr>solution := puzzle su\<rparr>"
    using assms by (simp add: solution_reset_eq)
  then show ?thesis
    using assms(1) by (simp add: wf_sudoku_def clues_kept_def)
next
  case (Erase row col)
  show ?thesis
  proof (cases "0 \<le> row \<and> row \<le> 8 \<and> 0 \<le> col \<and> col \<le> 8")
    case True
    then show ?thesis
      using assms Erase
      by (auto simp add: cell_erase_eq wf_set_cell set_cell_simps clues_kept_set_cell
          split: if_splits)
  next
    case False
    then have "cell_erase su row col = Inl AssertionFailed"
      by (auto simp add: cell_erase_def DIM_def)
    then show ?thesis
      using assms Erase by simp
  qed
next
  case (Fill row col num)
  show ?thesis
  proof (cases "0 \<le> row \<and> row \<le> 8 \<and> 0 \<le> col \<and> col \<le> 8 \<and> 1 \<le> num \<and> num \<le> 9")
    case True
    then show ?thesis
      using assms Fill
      by (auto simp add: cell_fill_eq wf_set_cell set_cell_simps clues_kept_set_cell
          split: if_splits)
  next
    case False
    then have "cell_fill su row col num = Inl AssertionFailed"
      by (auto simp add: cell_fill_def DIM_def)
    then show ?thesis
      using assms Fill by simp
  qed
next
  case Solve
  then obtain b where "sudoku_solve fuel su = Inr (b, su')"
    using assms(3) by (auto split: sum.splits)
  with assms(1,2) show ?thesis
    by (rule sudoku_solve_clues)
qed

lemma run_calls_clues:
  "wf_sudoku su \<Longrightarrow> clues_kept su \<Longrightarrow> run_calls fuel su cs = Inr su' \<Longrightarrow>
   wf_sudoku su' \<and> puzzle su' = puzzle su \<and> clues_kept su'"
proof (induction cs arbitrary: su)
  case Nil
  then show ?case by simp
next
  case (Cons c cs)
  then obtain su1 where c: "run_call fuel su c = Inr su1" and rest: "run_calls fuel su1 cs = Inr su'"
    by (auto split: sum.splits)
  from run_call_clues[OF Cons.prems(1,2) c] Cons.IH[OF _ _ rest] show ?case
    by simp
qed

subsection \<open>The choice of the cell\<close>

lemma find_hd_filter: "filter P xs \<noteq> [] \<Longrightarrow> find P xs = Some (hd (filter P xs))"
  by (induction xs) auto

lemma empty_cells_subset: "set (empty_cells su) \<subseteq> set cells"
  by (auto simp add: empty_cells_def)

lemma least_possible_solutions_eq:
  shows "least_possible_solutions su row col =
     (if live_cells su = [] then Inr (0, row, col, [])
      else let m = Min (set_size su ` set (live_cells su));
               p = hd (filter (\<lambda>p. set_size su p = m) (empty_cells su))
           in Inr (m, fst p, snd p, choices_at su p))"
    and "live_cells su \<noteq> [] \<Longrightarrow>
      filter (\<lambda>p. set_size su p = Min (set_size su ` set (live_cells su))) (empty_cells su) \<noteq> []"
proof -
  let ?E = "empty_cells su"
  let ?S = "set_size su ` set (live_cells su)"
  have S: "set_size su ` {p \<in> set cells. p \<in> set ?E \<and> 0 < set_size su p} = ?S"
    using empty_cells_subset[of su] by (auto simp add: live_cells_def)
  have first: "least_first_pass su cells (DIM + 1) = Inr (Min (insert 10 ?S))"
    by (simp add: least_first_pass_eq S DIM_def)
  have second: "least_possible_solutions su row col =
      (case find (\<lambda>p. set_size su p = Min (insert 10 ?S)) ?E of
         None \<Rightarrow> Inr (0, row, col, [])
       | Some p \<Rightarrow> Inr (Min (insert 10 ?S), fst p, snd p, choices_at su p))"
    by (simp add: least_possible_solutions_def first least_second_pass_eq empty_cells_def)
  have bound: "set_size su p \<le> 9" "0 \<le> set_size su p" if "p \<in> set ?E" for p
    using that empty_cells_subset[of su] set_size_bounds[of "fst p" "snd p" su] by auto
  have attained: "filter (\<lambda>p. set_size su p = Min ?S) ?E \<noteq> []"
    and least: "Min (insert 10 ?S) = Min ?S" if ne: "live_cells su \<noteq> []"
  proof -
    have fin: "finite ?S" and ne': "?S \<noteq> {}"
      using ne by simp_all
    then have "Min ?S \<in> ?S"
      by (rule Min_in)
    then obtain p where p: "p \<in> set ?E" "set_size su p = Min ?S"
      by (auto simp add: live_cells_def)
    then show "filter (\<lambda>p. set_size su p = Min ?S) ?E \<noteq> []"
      by (auto simp add: filter_empty_conv)
    have "Min ?S \<le> 10"
      using p bound(1)[OF p(1)] by simp
    then show "Min (insert 10 ?S) = Min ?S"
      using fin ne' by (simp add: min_absorb2)
  qed
  show "live_cells su \<noteq> [] \<Longrightarrow>
      filter (\<lambda>p. set_size su p = Min (set_size su ` set (live_cells su))) (empty_cells su) \<noteq> []"
    by (rule attained)
  show "least_possible_solutions su row col =
     (if live_cells su = [] then Inr (0, row, col, [])
      else let m = Min (set_size su ` set (live_cells su));
               p = hd (filter (\<lambda>p. set_size su p = m) (empty_cells su))
           in Inr (m, fst p, snd p, choices_at su p))"
  proof (cases "live_cells su = []")
    case True
    then have "set_size su p \<noteq> 10" if "p \<in> set ?E" for p
      using bound(1)[OF that] by auto
    then have "find (\<lambda>p. set_size su p = Min (insert 10 ?S)) ?E = None"
      using True by (simp add: find_None_iff)
    then show ?thesis
      using True second by simp
  next
    case False
    then show ?thesis
      using second least[OF False] find_hd_filter[OF attained[OF False]] by (simp add: Let_def)
  qed
qed

subsection \<open>Dead ends\<close>

lemma sudoku_solve_true_solved: "sudoku_solve n su = Inr (True, su') \<Longrightarrow> puzzle_solved su'"
  using sudoku_solve_invariant[where I = "\<lambda>s. True" and su = su and n = n and b = True
      and su' = su']
  by simp

lemma occurs_update:
  assumes "occurs s r c d" "d \<noteq> 0" "s ! k = 0"
  shows "occurs (s[k := v]) r c d"
proof -
  have keep: "s[k := v] ! i = d" if "s ! i = d" for i
  proof -
    have "i \<noteq> k" using that assms(2,3) by auto
    with that show ?thesis by simp
  qed
  have "in_row s r d \<Longrightarrow> in_row (s[k := v]) r d"
    unfolding in_row_def using keep by blast
  moreover have "in_col s c d \<Longrightarrow> in_col (s[k := v]) c d"
    unfolding in_col_def using keep by blast
  moreover have "in_box s r c d \<Longrightarrow> in_box (s[k := v]) r c d"
    unfolding in_box_def using keep by fast
  ultimately show ?thesis
    using assms(1) unfolding occurs_def by blast
qed

lemma dead_end_step:
  assumes dead: "solution s ! idx r c = 0" "set_size s (r, c) = 0" and rc: "(r, c) \<in> set cells"
    and cell: "(row, col) \<in> set cells" "solution s ! idx row col = 0"
      "puzzle s ! idx row col = 0" "d \<in> set (candidates s row col)"
  shows "solution (set_cell s row col d) ! idx r c = 0 \<and> set_size (set_cell s row col d) (r, c) = 0"
proof -
  have rng: "0 \<le> r" "r \<le> 8" "0 \<le> c" "c \<le> 8" "0 \<le> row" "row \<le> 8" "0 \<le> col" "col \<le> 8"
    using rc cell(1) by (simp_all add: cells_range)
  have "candidates s row col \<noteq> []"
    using cell(4) by auto
  then have "set_size s (row, col) \<noteq> 0"
    using rng cell(3) by (simp add: set_size_def cell_choices_eq)
  then have "(row, col) \<noteq> (r, c)"
    using dead(2) by auto
  then have ne: "idx r c \<noteq> idx row col"
    using rng idx_inj[of r c row col] by auto
  then have still: "solution (set_cell s row col d) ! idx r c = 0"
    using dead(1) by (simp add: set_cell_simps)
  have "set_size (set_cell s row col d) (r, c) = 0"
  proof (cases "puzzle s ! idx r c = 0")
    case False
    then show ?thesis
      using rng by (simp add: set_size_def cell_choices_eq set_cell_simps)
  next
    case True
    then have "candidates s r c = []"
      using dead(2) rng by (simp add: set_size_def cell_choices_eq)
    then have all: "\<forall>x\<in>set [1..9]. occurs (solution s) r c x"
      by (simp add: candidates_def filter_empty_conv)
    have "occurs ((solution s)[idx row col := d]) r c x" if "x \<in> set [1..9]" for x
      using all that cell(2) by (intro occurs_update) auto
    then have "candidates (set_cell s row col d) r c = []"
      by (simp add: candidates_def filter_empty_conv set_cell_simps)
    then show ?thesis
      using True rng by (simp add: set_size_def cell_choices_eq set_cell_simps)
  qed
  with still show ?thesis by simp
qed

lemma sudoku_solve_dead_end:
  assumes "(r, c) \<in> set cells" "solution su ! idx r c = 0" "set_size su (r, c) = 0"
    and "sudoku_solve n su = Inr (b, su')"
  shows "\<not> b \<and> su' = su"
proof -
  let ?I = "\<lambda>s. solution s ! idx r c = 0 \<and> set_size s (r, c) = 0"
  have res: "?I su' \<and> (b \<longrightarrow> puzzle_solved su') \<and> (\<not> b \<longrightarrow> su' = su)"
  proof (rule sudoku_solve_invariant[where I = ?I and su = su and n = n])
    show "?I su"
      using assms by simp
    show "sudoku_solve n su = Inr (b, su')"
      by (rule assms(4))
  next
    fix s row col d
    assume "?I s" "(row, col) \<in> set cells" "solution s ! idx row col = 0"
      "puzzle s ! idx row col = 0" "d \<in> set (candidates s row col)"
    then show "?I (set_cell s row col d)"
      using dead_end_step[of s r c row col d] assms(1) by simp
  qed
  have "\<not> puzzle_solved su'"
    using res assms(1) by (auto simp add: puzzle_solved_iff)
  with res show ?thesis by auto
qed

section \<open>The claims\<close>

text \<open>
  C1, as the code has it. \<open>puzzle_solved\<close> only looks for empty cells and \<open>sudoku_solve\<close>
  never re-checks the cells it finds filled, so a full board is reported solved whatever
  its clues are: on the board \<open>duplicate_clue\<close> the call returns true although the first
  row holds 2 twice and 1 never.
\<close>

theorem sudoku_solve_sound_counterexample:
  "sudoku_solve 1 duplicate_clue = Inr (True, duplicate_clue) \<and>
   puzzle_solved duplicate_clue \<and>
   count_list (row_values (solution duplicate_clue) 0) 2 = 2 \<and>
   count_list (row_values (solution duplicate_clue) 0) 1 = 0 \<and>
   \<not> complete_grid (solution duplicate_clue)"
proof -
  have run: "sudoku_solve 1 duplicate_clue = Inr (True, duplicate_clue)"
    and solved: "puzzle_solved duplicate_clue"
    and twice: "count_list (row_values (solution duplicate_clue) 0) 2 = 2"
    and never: "count_list (row_values (solution duplicate_clue) 0) 1 = 0"
    by code_simp+
  have "\<not> once_each (row_values (solution duplicate_clue) 0)"
    using never by (auto simp add: once_each_def intro!: bexI[of _ 1])
  then have "\<not> complete_grid (solution duplicate_clue)"
    by (auto simp add: complete_grid_def intro!: bexI[of _ 0])
  with run solved twice never show ?thesis
    by simp
qed

text \<open>
  C1, amended. If the solution of the board is valid before the call (its values are 0 to
  9 and no digit stands twice in a row, a column or a box) and \<open>sudoku_solve\<close> returns
  true, then afterwards \<open>puzzle_solved\<close> holds, every cell is non-empty, and every row,
  every column and every box holds each digit 1 to 9 exactly once.
\<close>

theorem sudoku_solve_sound:
  assumes "wf_sudoku su" "valid_grid (solution su)" "sudoku_solve fuel su = Inr (True, su')"
  shows "puzzle_solved su' \<and> (\<forall>(r, c)\<in>set cells. solution su' ! idx r c \<noteq> 0) \<and>
         complete_grid (solution su')"
proof -
  have "wf_sudoku su' \<and> valid_grid (solution su') \<and> (True \<longrightarrow> puzzle_solved su')"
    using assms by (rule sudoku_solve_valid)
  then have valid: "valid_grid (solution su')" and solved: "puzzle_solved su'"
    by simp_all
  from solved have full: "\<forall>(r, c)\<in>set cells. solution su' ! idx r c \<noteq> 0"
    by (simp add: puzzle_solved_iff)
  with valid have "complete_grid (solution su')"
    by (rule complete_gridI)
  with solved full show ?thesis
    by simp
qed

theorem sudoku_solve_sound_witness:
  "wf_sudoku two_blanks \<and> valid_grid (solution two_blanks) \<and>
   sudoku_solve 3 two_blanks = Inr (True, two_blanks\<lparr>solution := solved_grid\<rparr>) \<and>
   puzzle_solved (two_blanks\<lparr>solution := solved_grid\<rparr>) \<and>
   complete_grid solved_grid"
proof -
  have wf: "wf_sudoku two_blanks" and valid: "valid_grid (solution two_blanks)"
    and run: "sudoku_solve 3 two_blanks = Inr (True, two_blanks\<lparr>solution := solved_grid\<rparr>)"
    by code_simp+
  from sudoku_solve_sound[OF wf valid run] wf valid run show ?thesis
    by simp
qed

text \<open>
  C2. When \<open>sudoku_solve\<close> returns false, the board, puzzle and solution, is the board of
  before the call: every speculative fill has been undone.
\<close>

theorem sudoku_solve_false_unchanged:
  assumes "wf_sudoku su" "sudoku_solve fuel su = Inr (False, su')"
  shows "su' = su"
  using sudoku_solve_invariant[where I = "\<lambda>s. True" and su = su and n = fuel and b = False
      and su' = su'] assms(2)
  by simp

theorem sudoku_solve_false_unchanged_witness:
  "wf_sudoku three_blanks \<and> sudoku_solve 4 three_blanks = Inr (False, three_blanks)"
proof -
  have wf: "wf_sudoku three_blanks"
    by code_simp
  have run: "sudoku_solve 4 three_blanks = Inr (False, three_blanks)"
    by code_simp
  from sudoku_solve_false_unchanged[OF wf run] run wf show ?thesis
    by simp
qed

text \<open>
  C3. For valid \<open>row\<close>, \<open>col\<close> in 0..8 and \<open>num\<close> in 1..9, \<open>cell_fill\<close> returns false and
  leaves the board unchanged when the cell is a clue, returns false and leaves the board
  unchanged when \<open>num\<close> already occurs in the row, the column or the box of the cell in
  the solution, and otherwise stores \<open>num\<close> at \<open>solution[row * 9 + col]\<close> and returns true.
\<close>

theorem cell_fill_spec:
  assumes "wf_sudoku su" "0 \<le> row" "row \<le> 8" "0 \<le> col" "col \<le> 8" "1 \<le> num" "num \<le> 9"
  shows "idx row col < length (solution su) \<and>
         cell_fill su row col num =
           (if puzzle su ! idx row col \<noteq> 0 then Inr (False, su)
            else if in_row (solution su) row num \<or> in_col (solution su) col num
                    \<or> in_box (solution su) row col num
                 then Inr (False, su)
            else Inr (True, su\<lparr>solution := (solution su)[idx row col := num]\<rparr>))"
  using assms idx_less[of row col]
  by (simp add: cell_fill_eq occurs_def set_cell_def wf_sudoku_def DIM_def)

theorem cell_fill_spec_witness:
  "wf_sudoku two_blanks \<and>
   cell_fill two_blanks 0 1 5 = Inr (False, two_blanks) \<and>
   cell_fill two_blanks 0 0 2 = Inr (False, two_blanks) \<and>
   cell_fill two_blanks 0 0 1 =
     Inr (True, two_blanks\<lparr>solution := (solution two_blanks)[idx 0 0 := 1]\<rparr>)"
proof -
  have wf: "wf_sudoku two_blanks"
    by code_simp
  have clue: "puzzle two_blanks ! idx 0 1 \<noteq> 0" and blank: "puzzle two_blanks ! idx 0 0 = 0"
    by code_simp+
  have taken: "in_row (solution two_blanks) 0 2"
    by code_simp
  have free: "\<not> in_row (solution two_blanks) 0 1" "\<not> in_col (solution two_blanks) 0 1"
    "\<not> in_box (solution two_blanks) 0 0 1"
    by code_simp+
  show ?thesis
    using cell_fill_spec[OF wf, of 0 1 5] cell_fill_spec[OF wf, of 0 0 2]
      cell_fill_spec[OF wf, of 0 0 1] wf clue blank taken free
    by simp
qed

text \<open>
  C4. From a board whose solution equals its puzzle, every sequence of \<open>solution_reset\<close>,
  \<open>cell_erase\<close>, \<open>cell_fill\<close> and \<open>sudoku_solve\<close> calls leaves the puzzle as it was and
  every clue in place in the solution; and on a clue cell \<open>cell_erase\<close> and \<open>cell_fill\<close>
  return false and give back the board unchanged.
\<close>

theorem clues_immutable:
  assumes "wf_sudoku su" "solution su = puzzle su" "run_calls fuel su cs = Inr su'"
  shows "puzzle su' = puzzle su \<and>
         (\<forall>i<81. puzzle su' ! i \<noteq> 0 \<longrightarrow> solution su' ! i = puzzle su' ! i) \<and>
         (\<forall>row col num.
            0 \<le> row \<and> row \<le> 8 \<and> 0 \<le> col \<and> col \<le> 8 \<and> puzzle su' ! idx row col \<noteq> 0 \<longrightarrow>
            cell_erase su' row col = Inr (False, su') \<and>
            (1 \<le> num \<and> num \<le> 9 \<longrightarrow> cell_fill su' row col num = Inr (False, su')))"
proof -
  have "clues_kept su"
    using assms(2) by (simp add: clues_kept_def)
  with assms(1) have "wf_sudoku su' \<and> puzzle su' = puzzle su \<and> clues_kept su'"
    using assms(3) by (rule run_calls_clues)
  then show ?thesis
    by (simp add: clues_kept_def DIM_def cell_erase_eq cell_fill_eq)
qed

theorem clues_immutable_witness:
  "wf_sudoku two_blanks \<and> solution two_blanks = puzzle two_blanks \<and>
   run_calls 3 two_blanks [Fill 0 0 1, Erase 4 4, Reset, Fill 4 4 9, Solve] =
     Inr (two_blanks\<lparr>solution := solved_grid\<rparr>) \<and>
   puzzle (two_blanks\<lparr>solution := solved_grid\<rparr>) = puzzle two_blanks \<and>
   cell_erase (two_blanks\<lparr>solution := solved_grid\<rparr>) 0 1 =
     Inr (False, two_blanks\<lparr>solution := solved_grid\<rparr>) \<and>
   cell_fill (two_blanks\<lparr>solution := solved_grid\<rparr>) 0 1 7 =
     Inr (False, two_blanks\<lparr>solution := solved_grid\<rparr>)"
proof -
  let ?F = "two_blanks\<lparr>solution := solved_grid\<rparr>"
  have wf: "wf_sudoku two_blanks" and start: "solution two_blanks = puzzle two_blanks"
    and run: "run_calls 3 two_blanks [Fill 0 0 1, Erase 4 4, Reset, Fill 4 4 9, Solve] = Inr ?F"
    and clue: "puzzle ?F ! idx 0 1 \<noteq> 0"
    by code_simp+
  from clues_immutable[OF wf start run] have
    "puzzle ?F = puzzle two_blanks"
    "0 \<le> (0::int) \<and> (0::int) \<le> 8 \<and> 0 \<le> (1::int) \<and> (1::int) \<le> 8 \<and> puzzle ?F ! idx 0 1 \<noteq> 0 \<longrightarrow>
       cell_erase ?F 0 1 = Inr (False, ?F) \<and>
       (1 \<le> (7::int) \<and> (7::int) \<le> 9 \<longrightarrow> cell_fill ?F 0 1 7 = Inr (False, ?F))"
    by blast+
  with wf start run clue show ?thesis
    by simp
qed

text \<open>
  C5. \<open>least_possible_solutions\<close> takes the minimum of the candidate-set sizes over the
  empty cells that have at least one candidate, sets the coordinates to the first empty
  cell in row-major order whose size is that minimum, hands out the candidates of that
  cell and returns the size. When no empty cell has a candidate, which includes the
  board without empty cells, it returns 0 and leaves the coordinates as they were.
\<close>

theorem least_possible_solutions_spec:
  "least_possible_solutions su row col =
     (if live_cells su = [] then Inr (0, row, col, [])
      else let m = Min (set_size su ` set (live_cells su));
               p = hd (filter (\<lambda>p. set_size su p = m) (empty_cells su))
           in Inr (m, fst p, snd p, choices_at su p)) \<and>
   (live_cells su \<noteq> [] \<longrightarrow>
      filter (\<lambda>p. set_size su p = Min (set_size su ` set (live_cells su))) (empty_cells su) \<noteq> [])"
  using least_possible_solutions_eq(1)[of su row col] least_possible_solutions_eq(2)[of su]
  by blast

theorem least_possible_solutions_spec_witness:
  "live_cells three_blanks \<noteq> [] \<and>
   least_possible_solutions three_blanks 0 0 = Inr (2, 0, 0, [1, 3]) \<and>
   filter (\<lambda>p. set_size three_blanks p = 2) (empty_cells three_blanks) \<noteq> []"
proof -
  have live: "live_cells three_blanks \<noteq> []"
    and m: "Min (set_size three_blanks ` set (live_cells three_blanks)) = 2"
    and p: "hd (filter (\<lambda>p. set_size three_blanks p = 2) (empty_cells three_blanks)) = (0, 0)"
    and ch: "choices_at three_blanks (0, 0) = [1, 3]"
    by code_simp+
  from least_possible_solutions_spec[of three_blanks 0 0] live m p ch show ?thesis
    by (simp add: Let_def)
qed

text \<open>
  C6, as the code has it. On the board \<open>dead_end_board\<close> the first cell is empty and has
  no candidate, yet \<open>least_possible_solutions\<close> reports neither that cell nor a count of
  zero: the test \<open>num_choices > 0\<close> of its first pass skips the dead end, and the call
  returns the five candidates of the cell in row 1, column 3.
\<close>

theorem dead_end_counterexample:
  "solution dead_end_board ! idx 0 0 = 0 \<and>
   cell_choices dead_end_board 0 0 = Inr (0, []) \<and>
   least_possible_solutions dead_end_board 0 0 = Inr (5, 1, 3, [1, 2, 6, 7, 8])"
  by code_simp

text \<open>
  C6, amended. On a board with an empty cell that has no candidate,
  \<open>least_possible_solutions\<close> passes over that cell: it returns 0 only if no empty cell
  has a candidate, and otherwise the least count among the empty cells that have a
  candidate, which is positive, together with the first empty cell in row-major order
  that has that many candidates, which is another cell, and with the candidates of that
  cell. \<open>sudoku_solve\<close> on such a board returns false and leaves the board unchanged,
  with any fuel above the number of empty cells.
\<close>

theorem dead_end_cell:
  assumes "wf_sudoku su" "(r, c) \<in> set cells" "solution su ! idx r c = 0"
    and "set_size su (r, c) = 0"
  shows "(\<exists>n i j ch. least_possible_solutions su row col = Inr (n, i, j, ch) \<and>
            (if live_cells su = [] then n = 0
             else n = Min (set_size su ` set (live_cells su)) \<and> 0 < n \<and>
                  (i, j) = hd (filter (\<lambda>p. set_size su p = n) (empty_cells su)) \<and>
                  (i, j) \<noteq> (r, c) \<and> (i, j) \<in> set (live_cells su) \<and>
                  set_size su (i, j) = n \<and> ch = choices_at su (i, j))) \<and>
         (count_empty su < fuel \<longrightarrow> sudoku_solve fuel su = Inr (False, su))"
proof
  show "\<exists>n i j ch. least_possible_solutions su row col = Inr (n, i, j, ch) \<and>
            (if live_cells su = [] then n = 0
             else n = Min (set_size su ` set (live_cells su)) \<and> 0 < n \<and>
                  (i, j) = hd (filter (\<lambda>p. set_size su p = n) (empty_cells su)) \<and>
                  (i, j) \<noteq> (r, c) \<and> (i, j) \<in> set (live_cells su) \<and>
                  set_size su (i, j) = n \<and> ch = choices_at su (i, j))"
  proof (cases "live_cells su = []")
    case True
    then show ?thesis
      by (simp add: least_possible_solutions_eq(1))
  next
    case False
    let ?m = "Min (set_size su ` set (live_cells su))"
    let ?p = "hd (filter (\<lambda>p. set_size su p = ?m) (empty_cells su))"
    have "?p \<in> set (filter (\<lambda>p. set_size su p = ?m) (empty_cells su))"
      using least_possible_solutions_eq(2)[OF False] by (rule hd_in_set)
    then have p: "?p \<in> set (empty_cells su)" "set_size su ?p = ?m"
      by simp_all
    have "?m \<in> set_size su ` set (live_cells su)"
      using False by (intro Min_in) simp_all
    then have pos: "0 < ?m"
      by (auto simp add: live_cells_def)
    then have "?p \<in> set (live_cells su)" "?p \<noteq> (r, c)"
      using p assms(4) by (auto simp add: live_cells_def)
    moreover have "least_possible_solutions su row col = Inr (?m, fst ?p, snd ?p, choices_at su ?p)"
      using False by (simp add: least_possible_solutions_eq(1) Let_def)
    ultimately show ?thesis
      using False pos p(2)
      by (intro exI[of _ ?m] exI[of _ "fst ?p"] exI[of _ "snd ?p"]
          exI[of _ "choices_at su ?p"]) simp
  qed
next
  show "count_empty su < fuel \<longrightarrow> sudoku_solve fuel su = Inr (False, su)"
  proof
    assume "count_empty su < fuel"
    then obtain b su' where run: "sudoku_solve fuel su = Inr (b, su')"
      using sudoku_solve_total[OF assms(1)] by blast
    from sudoku_solve_dead_end[OF assms(2,3,4) run] run
    show "sudoku_solve fuel su = Inr (False, su)"
      by simp
  qed
qed

theorem dead_end_cell_witness:
  "wf_sudoku dead_end_board \<and> (0, 0) \<in> set cells \<and> solution dead_end_board ! idx 0 0 = 0 \<and>
   set_size dead_end_board (0, 0) = 0 \<and> count_empty dead_end_board < 73 \<and>
   live_cells dead_end_board \<noteq> [] \<and>
   (\<exists>n i j ch. least_possible_solutions dead_end_board 0 0 = Inr (n, i, j, ch) \<and>
      n = Min (set_size dead_end_board ` set (live_cells dead_end_board)) \<and> 0 < n \<and>
      (i, j) \<noteq> (0, 0)) \<and>
   sudoku_solve 73 dead_end_board = Inr (False, dead_end_board)"
proof -
  have wf: "wf_sudoku dead_end_board" and cell: "(0, 0) \<in> set cells"
    and empty: "solution dead_end_board ! idx 0 0 = 0"
    and dead: "set_size dead_end_board (0, 0) = 0"
    and cnt: "count_empty dead_end_board < 73"
    and live: "live_cells dead_end_board \<noteq> []"
    by code_simp+
  note spec = dead_end_cell[OF wf cell empty dead, of 0 0 73]
  have "\<exists>n i j ch. least_possible_solutions dead_end_board 0 0 = Inr (n, i, j, ch) \<and>
      n = Min (set_size dead_end_board ` set (live_cells dead_end_board)) \<and> 0 < n \<and>
      (i, j) \<noteq> (0, 0)"
    using conjunct1[OF spec] live by auto
  moreover have "sudoku_solve 73 dead_end_board = Inr (False, dead_end_board)"
    using conjunct2[OF spec] cnt by simp
  ultimately show ?thesis
    using wf cell empty dead cnt live by simp
qed

text \<open>
  C7. For valid \<open>row\<close>, \<open>col\<close>, \<open>cell_choices\<close> returns 0 for a clue cell; otherwise it writes,
  in strictly ascending order, exactly the digits of 1..9 that occur nowhere in the row,
  the column and the box of the cell in the solution, and returns how many they are.
\<close>

theorem cell_choices_spec:
  assumes "wf_sudoku su" "0 \<le> row" "row \<le> 8" "0 \<le> col" "col \<le> 8"
  shows "cell_choices su row col =
           (if puzzle su ! idx row col \<noteq> 0 then Inr (0, [])
            else Inr (int (length (candidates su row col)), candidates su row col)) \<and>
         sorted_wrt (<) (candidates su row col) \<and>
         set (candidates su row col) =
           {d. 1 \<le> d \<and> d \<le> 9 \<and> \<not> in_row (solution su) row d
               \<and> \<not> in_col (solution su) col d \<and> \<not> in_box (solution su) row col d}"
proof -
  have "set (candidates su row col) =
           {d. 1 \<le> d \<and> d \<le> 9 \<and> \<not> in_row (solution su) row d
               \<and> \<not> in_col (solution su) col d \<and> \<not> in_box (solution su) row col d}"
    by (auto simp add: candidates_def occurs_def)
  then show ?thesis
    using assms by (simp add: cell_choices_eq candidates_sorted)
qed

theorem cell_choices_spec_witness:
  "wf_sudoku two_blanks \<and> cell_choices two_blanks 0 0 = Inr (1, [1]) \<and>
   cell_choices two_blanks 0 1 = Inr (0, []) \<and>
   cell_choices three_blanks 8 8 = Inr (0, [])"
proof -
  have wf: "wf_sudoku two_blanks" "wf_sudoku three_blanks"
    by code_simp+
  have clue: "puzzle two_blanks ! idx 0 1 \<noteq> 0" "puzzle three_blanks ! idx 8 8 \<noteq> 0"
    and blank: "puzzle two_blanks ! idx 0 0 = 0"
    by code_simp+
  have cands: "candidates two_blanks 0 0 = [1]"
    by code_simp
  show ?thesis
    using cell_choices_spec[OF wf(1), of 0 0] cell_choices_spec[OF wf(1), of 0 1]
      cell_choices_spec[OF wf(2), of 8 8] wf clue blank cands
    by simp
qed

text \<open>
  C8, as the code has it. A repeated \<open>cell_fill\<close> does not return what the first call
  returned: the first call stores the digit and returns true, the second finds the digit
  in the row of the cell, in the cell itself, and returns false.
\<close>

theorem repeated_fill_counterexample:
  "cell_fill three_blanks 0 0 1 = Inr (True, set_cell three_blanks 0 0 1) \<and>
   cell_fill (set_cell three_blanks 0 0 1) 0 0 1 = Inr (False, set_cell three_blanks 0 0 1)"
  by code_simp

text \<open>
  C8, amended. Every operation is a function of the board and its arguments.
  \<open>solution_reset\<close>, \<open>cell_erase\<close> and \<open>sudoku_solve\<close> are idempotent: the same call on the
  board the first call left returns the same result and leaves the same board. A
  repeated \<open>cell_fill\<close> leaves the board of the first call and returns false, whatever
  the first call returned. \<open>cell_erase\<close> returns false exactly when the cell is a clue,
  and on an empty cell that is no clue it changes nothing and returns true.
\<close>

theorem repeated_calls:
  assumes "wf_sudoku su" "0 \<le> row" "row \<le> 8" "0 \<le> col" "col \<le> 8" "1 \<le> num" "num \<le> 9"
  shows "solution_reset (solution_reset su) = solution_reset su \<and>
         (\<exists>su'. cell_erase su row col = Inr (puzzle su ! idx row col = 0, su') \<and>
                cell_erase su' row col = Inr (puzzle su ! idx row col = 0, su')) \<and>
         (puzzle su ! idx row col = 0 \<and> solution su ! idx row col = 0 \<longrightarrow>
            cell_erase su row col = Inr (True, su)) \<and>
         (\<exists>b su'. cell_fill su row col num = Inr (b, su') \<and>
                  cell_fill su' row col num = Inr (False, su')) \<and>
         (\<forall>b su'. sudoku_solve fuel su = Inr (b, su') \<longrightarrow> sudoku_solve fuel su' = Inr (b, su'))"
proof (intro conjI)
  have "wf_sudoku (solution_reset su)"
    using assms(1) by (simp add: solution_reset_eq wf_sudoku_def)
  then show "solution_reset (solution_reset su) = solution_reset su"
    using assms(1) by (simp add: solution_reset_eq)
next
  show "\<exists>su'. cell_erase su row col = Inr (puzzle su ! idx row col = 0, su') \<and>
              cell_erase su' row col = Inr (puzzle su ! idx row col = 0, su')"
    using assms by (auto simp add: cell_erase_eq set_cell_simps)
next
  show "puzzle su ! idx row col = 0 \<and> solution su ! idx row col = 0 \<longrightarrow>
          cell_erase su row col = Inr (True, su)"
    using assms by (simp add: cell_erase_eq set_cell_id)
next
  have len: "idx row col < length (solution su)"
    using assms idx_less[of row col] by (simp add: wf_sudoku_def DIM_def)
  have "in_row ((solution su)[idx row col := num]) row num"
    unfolding in_row_def using len assms by (intro bexI[of _ col]) simp_all
  then have "occurs (solution (set_cell su row col num)) row col num"
    by (simp add: occurs_def set_cell_simps)
  then show "\<exists>b su'. cell_fill su row col num = Inr (b, su') \<and>
                     cell_fill su' row col num = Inr (False, su')"
    using assms by (auto simp add: cell_fill_eq set_cell_simps)
next
  show "\<forall>b su'. sudoku_solve fuel su = Inr (b, su') \<longrightarrow> sudoku_solve fuel su' = Inr (b, su')"
  proof (intro allI impI)
    fix b su'
    assume run: "sudoku_solve fuel su = Inr (b, su')"
    show "sudoku_solve fuel su' = Inr (b, su')"
    proof (cases b)
      case True
      then have "puzzle_solved su'"
        using run by (auto dest: sudoku_solve_true_solved)
      moreover obtain n where "fuel = Suc n"
        using run by (cases fuel) simp_all
      ultimately show ?thesis
        using True by simp
    next
      case False
      then have "su' = su"
        using run by (auto dest: sudoku_solve_restores)
      with run show ?thesis by simp
    qed
  qed
qed

theorem repeated_calls_witness:
  "wf_sudoku three_blanks \<and>
   solution_reset (solution_reset three_blanks) = solution_reset three_blanks \<and>
   cell_erase three_blanks 0 0 = Inr (True, three_blanks) \<and>
   (\<exists>b su'. cell_fill three_blanks 0 0 1 = Inr (b, su') \<and> cell_fill su' 0 0 1 = Inr (False, su')) \<and>
   sudoku_solve 4 three_blanks = Inr (False, three_blanks)"
proof -
  have wf: "wf_sudoku three_blanks"
    and blank: "puzzle three_blanks ! idx 0 0 = 0" "solution three_blanks ! idx 0 0 = 0"
    and run: "sudoku_solve 4 three_blanks = Inr (False, three_blanks)"
    by code_simp+
  from repeated_calls[OF wf, of 0 0 1 4] wf blank run show ?thesis
    by simp
qed



text \<open>
  C10. \<open>cell_fill\<close> does not ask for an empty target, only for a cell that is not a clue.
  On a non-clue cell that holds the digit \<open>d\<close>, filling in \<open>d\<close> again returns false and
  leaves the board unchanged, and filling in a digit that occurs nowhere in the row, the
  column and the box of the cell overwrites \<open>d\<close> and returns true.
\<close>

theorem cell_fill_nonempty_target:
  assumes "wf_sudoku su" "0 \<le> row" "row \<le> 8" "0 \<le> col" "col \<le> 8"
    and "puzzle su ! idx row col = 0"
    and "solution su ! idx row col = d" "1 \<le> d" "d \<le> 9"
  shows "cell_fill su row col d = Inr (False, su) \<and>
         (\<forall>num. 1 \<le> num \<and> num \<le> 9 \<and> \<not> in_row (solution su) row num
                \<and> \<not> in_col (solution su) col num \<and> \<not> in_box (solution su) row col num \<longrightarrow>
            num \<noteq> d \<and>
            cell_fill su row col num =
              Inr (True, su\<lparr>solution := (solution su)[idx row col := num]\<rparr>) \<and>
            (solution su)[idx row col := num] ! idx row col = num)"
proof -
  have own: "in_row (solution su) row d"
    using assms by (auto simp add: in_row_def)
  have len: "idx row col < length (solution su)"
    using assms idx_less[of row col] by (simp add: wf_sudoku_def DIM_def)
  show ?thesis
    using assms own len by (auto simp add: cell_fill_eq occurs_def set_cell_def)
qed

theorem cell_fill_nonempty_target_witness:
  "cell_fill (set_cell three_blanks 0 0 1) 0 0 1 = Inr (False, set_cell three_blanks 0 0 1) \<and>
   cell_fill (set_cell three_blanks 0 0 1) 0 0 3 = Inr (True, set_cell three_blanks 0 0 3)"
proof -
  let ?B = "set_cell three_blanks 0 0 1"
  have wf: "wf_sudoku ?B"
    by code_simp
  have clue: "puzzle ?B ! idx 0 0 = 0" and cur: "solution ?B ! idx 0 0 = 1"
    by code_simp+
  have free: "\<not> in_row (solution ?B) 0 3" "\<not> in_col (solution ?B) 0 3"
    "\<not> in_box (solution ?B) 0 0 3"
    by code_simp+
  have "cell_fill ?B 0 0 1 = Inr (False, ?B) \<and>
        cell_fill ?B 0 0 3 = Inr (True, ?B\<lparr>solution := (solution ?B)[idx 0 0 := 3]\<rparr>)"
    using cell_fill_nonempty_target[OF wf _ _ _ _ clue cur, of ] free by simp
  then show ?thesis
    by (simp add: set_cell_def)
qed

end
